theory Spec2Isabelle
  imports Complex_Main
begin

section \<open>Strings\<close>

text \<open>
  A Python \<open>str\<close> is modelled as a \<open>string\<close>; a character stands for the code point of
  the same number (code points below 256). The predicates below are the ones of the
  Python string methods that the program calls.
\<close>

definition is_space :: "char \<Rightarrow> bool" where
  \<comment> \<open>\<open>str.isspace\<close> on one character: the characters that \<open>str.strip()\<close> removes\<close>
  "is_space c =
     (let n = (of_char c :: nat)
      in (9 \<le> n \<and> n \<le> 13) \<or> (28 \<le> n \<and> n \<le> 32) \<or> n = 133 \<or> n = 160)"

definition strip :: "string \<Rightarrow> string" where
  \<comment> \<open>\<open>s.strip()\<close>\<close>
  "strip s = rev (dropWhile is_space (rev (dropWhile is_space s)))"

definition startswith :: "string \<Rightarrow> string \<Rightarrow> bool" where
  \<comment> \<open>\<open>s.startswith(p)\<close>\<close>
  "startswith s p = (take (length p) s = p)"

definition endswith :: "string \<Rightarrow> string \<Rightarrow> bool" where
  \<comment> \<open>\<open>s.endswith(p)\<close>\<close>
  "endswith s p = (drop (length s - length p) s = p \<and> length p \<le> length s)"

definition before :: "char \<Rightarrow> string \<Rightarrow> string" where
  \<comment> \<open>the part of \<open>s\<close> in front of the first \<open>d\<close>: \<open>s.split(d, 1)[0]\<close>\<close>
  "before d s = takeWhile (\<lambda>c. c \<noteq> d) s"

definition after :: "char \<Rightarrow> string \<Rightarrow> string" where
  \<comment> \<open>the part of \<open>s\<close> behind the first \<open>d\<close>, empty when there is none\<close>
  "after d s = drop 1 (dropWhile (\<lambda>c. c \<noteq> d) s)"

section \<open>urllib.parse.urlparse\<close>

text \<open>
  The program parses URLs with the standard library. \<open>urlsplit\<close> and \<open>urlparse\<close> are
  modelled after the library's algorithm: strip leading control characters and spaces,
  delete tab, carriage return and line feed, cut off a scheme, then a network location
  after \<open>//\<close>, then fragment, query and parameters. The library raises \<open>ValueError\<close> on a
  network location it rejects; beyond unbalanced brackets, which locations it rejects
  depends on the library version and is the parameter \<open>netloc_rejected\<close>.
  \<open>validators.url\<close> and \<open>urljoin\<close> are parameters as well.
\<close>

datatype error = ValueError string

record lib =
  validators_url :: "string \<Rightarrow> bool"
  urljoin :: "string \<Rightarrow> string \<Rightarrow> string option"
  netloc_rejected :: "string \<Rightarrow> bool"

record parse_result =
  scheme :: string
  netloc :: string
  path :: string
  params :: string
  query :: string
  fragment :: string

definition c0_control_or_space :: "char \<Rightarrow> bool" where
  "c0_control_or_space c = ((of_char c :: nat) \<le> 32)"

definition unsafe_url_byte :: "char \<Rightarrow> bool" where
  "unsafe_url_byte c = (c = CHR 0x09 \<or> c = CHR 0x0D \<or> c = CHR 0x0A)"

definition is_ascii_alpha :: "char \<Rightarrow> bool" where
  "is_ascii_alpha c =
     (let n = (of_char c :: nat) in (65 \<le> n \<and> n \<le> 90) \<or> (97 \<le> n \<and> n \<le> 122))"

definition scheme_char :: "char \<Rightarrow> bool" where
  "scheme_char c =
     (let n = (of_char c :: nat)
      in is_ascii_alpha c \<or> (48 \<le> n \<and> n \<le> 57) \<or> c = CHR ''+'' \<or> c = CHR ''-'' \<or> c = CHR ''.'')"

definition lower_char :: "char \<Rightarrow> char" where
  "lower_char c =
     (let n = (of_char c :: nat) in if 65 \<le> n \<and> n \<le> 90 then char_of (n + 32) else c)"

definition netloc_delim :: "char \<Rightarrow> bool" where
  "netloc_delim c = (c = CHR ''/'' \<or> c = CHR ''?'' \<or> c = CHR ''#'')"

definition split_scheme :: "string \<Rightarrow> string \<times> string" where
  \<comment> \<open>the scheme in front of the first colon, lower-cased, and the rest behind the colon\<close>
  "split_scheme url =
     (let pre = before CHR '':'' url
      in if CHR '':'' \<in> set url \<and> pre \<noteq> [] \<and> is_ascii_alpha (hd url) \<and> list_all scheme_char pre
         then (map lower_char pre, drop (length pre + 1) url)
         else ([], url))"

definition splitnetloc :: "string \<Rightarrow> string \<times> string" where
  \<comment> \<open>\<open>_splitnetloc(url, 2)\<close> when \<open>url\<close> starts with \<open>//\<close>\<close>
  "splitnetloc url =
     (if take 2 url = ''//''
      then (takeWhile (\<lambda>c. \<not> netloc_delim c) (drop 2 url),
            dropWhile (\<lambda>c. \<not> netloc_delim c) (drop 2 url))
      else ([], url))"

definition urlsplit :: "lib \<Rightarrow> string \<Rightarrow> error + parse_result" where
  "urlsplit L url0 =
     (let url1 = filter (\<lambda>c. \<not> unsafe_url_byte c) (dropWhile c0_control_or_space url0);
          (sch, url2) = split_scheme url1;
          (loc, url3) = splitnetloc url2
      in if (CHR ''['' \<in> set loc) \<noteq> (CHR '']'' \<in> set loc) then Inl (ValueError ''Invalid IPv6 URL'')
         else if netloc_rejected L loc then Inl (ValueError ''invalid netloc'')
         else Inr \<lparr>scheme = sch, netloc = loc,
                   path = before CHR ''?'' (before CHR ''#'' url3), params = [],
                   query = after CHR ''?'' (before CHR ''#'' url3),
                   fragment = after CHR ''#'' url3\<rparr>)"

definition uses_params :: "string list" where
  "uses_params = ['''', ''ftp'', ''hdl'', ''prospero'', ''http'', ''imap'', ''https'', ''shttp'',
                  ''rtsp'', ''rtsps'', ''rtspu'', ''sip'', ''sips'', ''mms'', ''sftp'', ''tel'']"

definition last_segment :: "string \<Rightarrow> string" where
  \<comment> \<open>the part of a path behind its last slash (the whole path when it has none)\<close>
  "last_segment p = rev (takeWhile (\<lambda>c. c \<noteq> CHR ''/'') (rev p))"

definition splitparams :: "string \<Rightarrow> string \<times> string" where
  \<comment> \<open>\<open>_splitparams\<close>: cut at the first semicolon of the last path segment\<close>
  "splitparams p =
     (let seg = last_segment p
      in if CHR '';'' \<in> set seg
         then (take (length p - length seg) p @ before CHR '';'' seg, after CHR '';'' seg)
         else (p, []))"

definition urlparse :: "lib \<Rightarrow> string \<Rightarrow> error + parse_result" where
  "urlparse L url =
     (case urlsplit L url of
        Inl e \<Rightarrow> Inl e
      | Inr r \<Rightarrow>
          if scheme r \<in> set uses_params \<and> CHR '';'' \<in> set (path r)
          then Inr (r\<lparr>path := fst (splitparams (path r)), params := snd (splitparams (path r))\<rparr>)
          else Inr r)"

section \<open>URLValidator (src/utils/url\_validator.py)\<close>

definition is_valid_url :: "lib \<Rightarrow> string \<Rightarrow> error + bool" where
  "is_valid_url L url =
     (if url = [] then Inr False
      else if \<not> validators_url L url then Inr False
      else case urlparse L url of
             Inl e \<Rightarrow> Inl e
           | Inr parsed \<Rightarrow>
               if scheme parsed \<notin> set [''http'', ''https''] then Inr False
               else if netloc parsed = [] then Inr False
               else Inr True)"

definition normalize_url :: "lib \<Rightarrow> string \<Rightarrow> error + string option" where
  "normalize_url L url0 =
     (if url0 = [] then Inr None
      else
        let url1 = strip url0;
            url2 = (if startswith url1 ''http://'' \<or> startswith url1 ''https://''
                    then url1 else ''https://'' @ url1)
        in case urlparse L url2 of
             Inl e \<Rightarrow> Inl e
           | Inr parsed \<Rightarrow>
               let normalized0 = scheme parsed @ ''://'' @ netloc parsed @ path parsed;
                   normalized = (if query parsed \<noteq> [] then normalized0 @ ''?'' @ query parsed
                                 else normalized0)
               in (case is_valid_url L normalized of
                     Inl e \<Rightarrow> Inl e
                   | Inr ok \<Rightarrow> if ok then Inr (Some normalized) else Inr None))"

definition get_domain :: "lib \<Rightarrow> string \<Rightarrow> string option" where
  \<comment> \<open>an exception of \<open>urlparse\<close> is caught and gives \<open>None\<close>\<close>
  "get_domain L url =
     (case urlparse L url of
        Inl e \<Rightarrow> None
      | Inr parsed \<Rightarrow> if netloc parsed \<noteq> [] then Some (netloc parsed) else None)"

definition is_same_domain :: "lib \<Rightarrow> string \<Rightarrow> string \<Rightarrow> bool" where
  "is_same_domain L url1 url2 =
     (case (get_domain L url1, get_domain L url2) of
        (Some domain1, Some domain2) \<Rightarrow> if domain1 = [] \<or> domain2 = [] then False else domain1 = domain2
      | _ \<Rightarrow> False)"

definition make_absolute_url :: "lib \<Rightarrow> string \<Rightarrow> string \<Rightarrow> string option" where
  \<comment> \<open>an exception of \<open>urljoin\<close> or of the validation is caught and gives \<open>None\<close>\<close>
  "make_absolute_url L base_url relative_url =
     (case urljoin L base_url relative_url of
        None \<Rightarrow> None
      | Some absolute \<Rightarrow>
          (case is_valid_url L absolute of
             Inl e \<Rightarrow> None
           | Inr ok \<Rightarrow> if ok then Some absolute else None))"

definition clean_url :: "string \<Rightarrow> string" where
  "clean_url url0 =
     (let url = strip url0
      in if endswith url ''/'' \<and> count_list url CHR ''/'' > 3 then butlast url else url)"

section \<open>Parsed pages\<close>

text \<open>
  A parsed page (the \<open>BeautifulSoup\<close> object) is the list of its top-level nodes; a node is
  a text or a tag with its name, its attributes and its children. Parsing itself is outside
  the program; the functions below are the operations of the parse tree that the program
  calls.
\<close>

datatype node = Text string | Tag string "(string \<times> string) list" "node list"

fun tags_of :: "node \<Rightarrow> node list" where
  \<comment> \<open>a tag followed by the tags below it, in document order\<close>
  "tags_of (Text s) = []"
| "tags_of (Tag n a cs) = Tag n a cs # concat (map tags_of cs)"

fun named :: "string list \<Rightarrow> node \<Rightarrow> bool" where
  "named ns (Text s) = False"
| "named ns (Tag n a cs) = (n \<in> set ns)"

fun attr :: "string \<Rightarrow> node \<Rightarrow> string option" where
  \<comment> \<open>\<open>tag.get(k)\<close>\<close>
  "attr k (Text s) = None"
| "attr k (Tag n a cs) = map_of a k"

definition find_all :: "(node \<Rightarrow> bool) \<Rightarrow> node list \<Rightarrow> node list" where
  \<comment> \<open>\<open>soup.find_all(...)\<close>: the matching tags in document order\<close>
  "find_all P soup = filter P (concat (map tags_of soup))"

definition find_first :: "(node \<Rightarrow> bool) \<Rightarrow> node list \<Rightarrow> node option" where
  \<comment> \<open>\<open>soup.find(...)\<close>: the first matching tag, if any\<close>
  "find_first P soup = (case find_all P soup of [] \<Rightarrow> None | t # ts \<Rightarrow> Some t)"

fun get_text :: "node \<Rightarrow> string" where
  \<comment> \<open>\<open>tag.get_text()\<close>: all the text below a node, concatenated\<close>
  "get_text (Text s) = s"
| "get_text (Tag n a cs) = concat (map get_text cs)"

fun tag_string :: "node \<Rightarrow> string option" where
  \<comment> \<open>\<open>tag.string\<close>: the text of a tag whose only content is one text, possibly nested\<close>
  "tag_string (Text s) = Some s"
| "tag_string (Tag n a [c]) = tag_string c"
| "tag_string (Tag n a cs) = None"

fun prune :: "string list \<Rightarrow> node \<Rightarrow> node" where
  \<comment> \<open>a node with every tag of the given names below it removed\<close>
  "prune ns (Text s) = Text s"
| "prune ns (Tag n a cs) = Tag n a (map (prune ns) (filter (\<lambda>c. \<not> named ns c) cs))"

definition decompose_all :: "string list \<Rightarrow> node list \<Rightarrow> node list" where
  \<comment> \<open>the page after \<open>decompose()\<close> of every tag of the given names\<close>
  "decompose_all ns soup = map (prune ns) (filter (\<lambda>c. \<not> named ns c) soup)"

definition line_break :: "char \<Rightarrow> bool" where
  \<comment> \<open>the characters at which \<open>str.splitlines\<close> ends a line\<close>
  "line_break c = (let n = (of_char c :: nat) in (10 \<le> n \<and> n \<le> 13) \<or> (28 \<le> n \<and> n \<le> 30) \<or> n = 133)"

fun splitlines_from :: "string \<Rightarrow> string \<Rightarrow> string list" where
  \<comment> \<open>the first argument is the line read so far, reversed; CR LF is one line end\<close>
  "splitlines_from cur [] = (if cur = [] then [] else [rev cur])"
| "splitlines_from cur [c] = (if line_break c then [rev cur] else [rev (c # cur)])"
| "splitlines_from cur (c # d # s) =
     (if c = CHR 0x0D \<and> d = CHR 0x0A then rev cur # splitlines_from [] s
      else if line_break c then rev cur # splitlines_from [] (d # s)
      else splitlines_from (c # cur) (d # s))"

definition splitlines :: "string \<Rightarrow> string list" where
  \<comment> \<open>\<open>s.splitlines()\<close>\<close>
  "splitlines s = splitlines_from [] s"

fun split_from :: "string \<Rightarrow> string \<Rightarrow> string list" where
  \<comment> \<open>the first argument is the piece read so far, reversed\<close>
  "split_from cur [] = [rev cur]"
| "split_from cur [c] = [rev (c # cur)]"
| "split_from cur (c # d # s) =
     (if c = CHR '' '' \<and> d = CHR '' '' then rev cur # split_from [] s
      else split_from (c # cur) (d # s))"

definition split_double_space :: "string \<Rightarrow> string list" where
  \<comment> \<open>\<open>s.split("  ")\<close>: cut at each pair of spaces, from the left\<close>
  "split_double_space s = split_from [] s"

fun join_space :: "string list \<Rightarrow> string" where
  \<comment> \<open>\<open>' '.join(xs)\<close>\<close>
  "join_space [] = []"
| "join_space [x] = x"
| "join_space (x # y # ys) = x @ '' '' @ join_space (y # ys)"

section \<open>Extraction (src/scraper/web\_scraper.py)\<close>

definition extract_title :: "node list \<Rightarrow> string" where
  "extract_title soup =
     (case find_first (named [''title'']) soup of
        Some t \<Rightarrow> (case tag_string t of
                     Some s \<Rightarrow> if s \<noteq> [] then strip s else []
                   | None \<Rightarrow> [])
      | None \<Rightarrow> (case find_first (named [''h1'']) soup of
                   Some h1 \<Rightarrow> strip (get_text h1)
                 | None \<Rightarrow> ''Untitled''))"

definition removed_tags :: "string list" where
  "removed_tags = [''script'', ''style'', ''nav'', ''footer'', ''header'', ''aside'']"

definition clean_text :: "string \<Rightarrow> string" where
  \<comment> \<open>the whitespace clean-up of \<open>_extract_content\<close>\<close>
  "clean_text text =
     (let lines = map strip (splitlines text);
          chunks = map strip (concat (map split_double_space lines))
      in join_space (filter (\<lambda>chunk. chunk \<noteq> []) chunks))"

definition extract_content :: "node list \<Rightarrow> string \<times> node list" where
  \<comment> \<open>returns the text and the page as the removal leaves it: the page is changed in place\<close>
  "extract_content soup =
     (let soup' = decompose_all removed_tags soup
      in (clean_text (concat (map get_text soup')), soup'))"

datatype meta_value = MetaText string | Headings "(int \<times> string) list"

fun dict_set :: "'k \<Rightarrow> 'v \<Rightarrow> ('k \<times> 'v) list \<Rightarrow> ('k \<times> 'v) list" where
  \<comment> \<open>\<open>d[k] = v\<close> on a dictionary kept in insertion order\<close>
  "dict_set k v [] = [(k, v)]"
| "dict_set k v ((k', v') # d) = (if k' = k then (k, v) # d else (k', v') # dict_set k v d)"

definition get_default :: "string \<Rightarrow> node \<Rightarrow> string \<Rightarrow> string" where
  \<comment> \<open>\<open>tag.get(k, default)\<close>\<close>
  "get_default k tag dflt = (case attr k tag of Some v \<Rightarrow> v | None \<Rightarrow> dflt)"

fun meta_tags_loop :: "node list \<Rightarrow> (string \<times> meta_value) list \<Rightarrow> (string \<times> meta_value) list" where
  "meta_tags_loop [] metadata = metadata"
| "meta_tags_loop (tag # tags) metadata =
     (let name = get_default ''name'' tag (get_default ''property'' tag []);
          content = get_default ''content'' tag []
      in if name \<noteq> [] \<and> content \<noteq> []
         then meta_tags_loop tags (dict_set name (MetaText content) metadata)
         else meta_tags_loop tags metadata)"

definition heading_names :: "(int \<times> string) list" where
  "heading_names = [(1, ''h1''), (2, ''h2''), (3, ''h3''), (4, ''h4''), (5, ''h5''), (6, ''h6'')]"

definition extract_metadata :: "node list \<Rightarrow> (string \<times> meta_value) list" where
  "extract_metadata soup =
     (let metadata = meta_tags_loop (find_all (named [''meta'']) soup) [];
          headings = concat (map (\<lambda>(i, h). map (\<lambda>heading. (i, strip (get_text heading)))
                                               (find_all (named [h]) soup)) heading_names)
      in if headings \<noteq> [] then dict_set ''headings'' (Headings headings) metadata else metadata)"

definition skipped_href :: "string \<Rightarrow> bool" where
  "skipped_href href =
     (startswith href ''#'' \<or> startswith href ''javascript:'' \<or> startswith href ''mailto:''
      \<or> startswith href ''tel:'')"

definition anchors :: "node list \<Rightarrow> string list" where
  \<comment> \<open>the \<open>href\<close> values of \<open>soup.find_all('a', href=True)\<close>, in document order\<close>
  "anchors soup = List.map_filter (attr ''href'') (find_all (named [''a'']) soup)"

fun extract_links_loop :: "lib \<Rightarrow> string \<Rightarrow> string list \<Rightarrow> string list \<Rightarrow> string list" where
  "extract_links_loop L base_url [] links = links"
| "extract_links_loop L base_url (href # hrefs) links =
     (if skipped_href href then extract_links_loop L base_url hrefs links
      else case make_absolute_url L base_url href of
             None \<Rightarrow> extract_links_loop L base_url hrefs links
           | Some absolute_url \<Rightarrow>
               if absolute_url \<noteq> [] \<and> absolute_url \<notin> set links
               then extract_links_loop L base_url hrefs (links @ [absolute_url])
               else extract_links_loop L base_url hrefs links)"

definition extract_links :: "lib \<Rightarrow> node list \<Rightarrow> string \<Rightarrow> string list" where
  "extract_links L soup base_url = extract_links_loop L base_url (anchors soup) []"

section \<open>Crawl (src/scraper/web\_scraper.py)\<close>

text \<open>
  \<open>ScrapedPage\<close> without its timestamp, the limits of \<open>WebScraper\<close>, and the state of a
  scraper. \<open>visited_urls\<close> and \<open>scraped_pages\<close> are the program's two fields. The other two
  fields observe the run and are not read by it: \<open>requests\<close> lists the URLs handed to
  \<open>session.get\<close>, in order, and \<open>history\<close> lists the value of the two program fields
  after each statement that changes one of them.

  The world outside is the function \<open>web\<close>: the parsed response to a GET of a URL, or
  \<open>None\<close> when the request or the parser raises. A URL is requested at most once in a
  session, so a function of the URL is all a session can observe.
\<close>

record scraped_page =
  url :: string
  title :: string
  content :: string
  metadata :: "(string \<times> meta_value) list"
  links :: "string list"
  depth :: int

record config =
  max_depth :: int
  max_pages :: int
  delay :: real

record session =
  visited_urls :: "string set"
  scraped_pages :: "scraped_page list"
  requests :: "string list"
  history :: "(string set \<times> scraped_page list) list"

type_synonym web = "string \<Rightarrow> node list option"

definition scrape_page :: "lib \<Rightarrow> web \<Rightarrow> string \<Rightarrow> int \<Rightarrow> session \<Rightarrow> scraped_page option \<times> session" where
  \<comment> \<open>every exception is caught and gives \<open>None\<close>\<close>
  "scrape_page L W u d s =
     (let s' = s\<lparr>requests := requests s @ [u]\<rparr>
      in case W u of
           None \<Rightarrow> (None, s')
         | Some soup \<Rightarrow>
             (let t = extract_title soup;
                  (text, soup') = extract_content soup;
                  md = extract_metadata soup';
                  ls = extract_links L soup' u
              in (Some \<lparr>url = u, title = t, content = text, metadata = md, links = ls, depth = d\<rparr>,
                  s')))"

definition mark_visited :: "string \<Rightarrow> session \<Rightarrow> session" where
  \<comment> \<open>\<open>self.visited_urls.add(url)\<close>\<close>
  "mark_visited u s =
     s\<lparr>visited_urls := insert u (visited_urls s),
       history := history s @ [(insert u (visited_urls s), scraped_pages s)]\<rparr>"

definition append_page :: "scraped_page \<Rightarrow> session \<Rightarrow> session" where
  \<comment> \<open>\<open>self.scraped_pages.append(scraped_page)\<close>\<close>
  "append_page p s =
     s\<lparr>scraped_pages := scraped_pages s @ [p],
       history := history s @ [(visited_urls s, scraped_pages s @ [p])]\<rparr>"

text \<open>
  \<open>crawl_recursive\<close> with its loop over the links of a page as \<open>follow_links\<close>.
  \<open>time.sleep\<close> raises \<open>ValueError\<close> on a negative delay; the handler of the call whose
  loop it is in catches it, which ends that loop.
\<close>

function crawl_recursive :: "config \<Rightarrow> lib \<Rightarrow> web \<Rightarrow> string \<Rightarrow> int \<Rightarrow> session \<Rightarrow> session"
  and follow_links :: "config \<Rightarrow> lib \<Rightarrow> web \<Rightarrow> string \<Rightarrow> int \<Rightarrow> string list \<Rightarrow> session \<Rightarrow> session"
where
  "crawl_recursive c L W u0 d s =
     (if d > max_depth c then s
      else if int (length (scraped_pages s)) \<ge> max_pages c then s
      else let u = clean_url u0
           in if u \<in> visited_urls s then s
              else case scrape_page L W u d (mark_visited u s) of
                     (None, s') \<Rightarrow> s'
                   | (Some page, s') \<Rightarrow> follow_links c L W u d (links page) (append_page page s'))"
| "follow_links c L W u d [] s = s"
| "follow_links c L W u d (link # rest) s =
     (if int (length (scraped_pages s)) \<ge> max_pages c then s
      else if is_same_domain L u link
           then (if delay c < 0 then s
                 else follow_links c L W u d rest (crawl_recursive c L W link (d + 1) s))
           else follow_links c L W u d rest s)"
  by pat_completeness auto

termination
  by (relation "measures
        [\<lambda>x. case x of Inl (c, L, W, u, d, s) \<Rightarrow> 2 * nat (max_depth c - d + 1)
                      | Inr (c, L, W, u, d, ls, s) \<Rightarrow> 2 * nat (max_depth c - d) + 1,
         \<lambda>x. case x of Inl (c, L, W, u, d, s) \<Rightarrow> 0
                      | Inr (c, L, W, u, d, ls, s) \<Rightarrow> length ls]") auto

declare crawl_recursive.simps [simp del]

definition new_session :: "session \<Rightarrow> session" where
  \<comment> \<open>\<open>self.visited_urls.clear(); self.scraped_pages.clear()\<close>: a session starts here\<close>
  "new_session s = s\<lparr>visited_urls := {}, scraped_pages := [], requests := [], history := [({}, [])]\<rparr>"

definition scrape_website :: "config \<Rightarrow> lib \<Rightarrow> web \<Rightarrow> string \<Rightarrow> session \<Rightarrow> (error + scraped_page list) \<times> session" where
  "scrape_website c L W start_url s =
     (case normalize_url L start_url of
        Inl e \<Rightarrow> (Inl e, s)
      | Inr None \<Rightarrow> (Inl (ValueError (''Invalid URL: '' @ start_url)), s)
      | Inr (Some normalized_url) \<Rightarrow>
          if normalized_url = [] then (Inl (ValueError (''Invalid URL: '' @ start_url)), s)
          else let s' = crawl_recursive c L W normalized_url 0 (new_session s)
               in (Inr (scraped_pages s'), s'))"

section \<open>The specification's wording\<close>

text \<open>
  The definitions of this section are not taken from the program. They write down what the
  specification says, to be compared with the program's functions.
\<close>

definition spec_title :: "node list \<Rightarrow> string" where
  \<comment> \<open>the title element's text if non-empty, else the first h1's text, else "Untitled"\<close>
  "spec_title soup =
     (let fallback = (case find_first (named [''h1'']) soup of
                        Some h1 \<Rightarrow> strip (get_text h1)
                      | None \<Rightarrow> ''Untitled'')
      in case find_first (named [''title'']) soup of
           Some t \<Rightarrow> if strip (get_text t) \<noteq> [] then strip (get_text t) else fallback
         | None \<Rightarrow> fallback)"

fun double_space :: "string \<Rightarrow> bool" where
  \<comment> \<open>two spaces next to each other somewhere in the string\<close>
  "double_space (c # d # s) = (if c = CHR '' '' \<and> d = CHR '' '' then True else double_space (d # s))"
| "double_space s = False"

fun words_from :: "string \<Rightarrow> string \<Rightarrow> string list" where
  \<comment> \<open>the words of a string, cut at every run of whitespace (\<open>s.split()\<close>); the first
      argument is the word read so far, reversed\<close>
  "words_from cur [] = (if cur = [] then [] else [rev cur])"
| "words_from cur (c # s) =
     (if is_space c then (if cur = [] then words_from [] s else rev cur # words_from [] s)
      else words_from (c # cur) s)"

definition spec_content :: "node list \<Rightarrow> string" where
  \<comment> \<open>the text without the removed elements, every whitespace run collapsed to one space\<close>
  "spec_content soup = join_space (words_from [] (concat (map get_text (decompose_all removed_tags soup))))"

definition tidy :: "string \<Rightarrow> bool" where
  \<comment> \<open>non-empty, no two adjacent spaces, no whitespace at either end\<close>
  "tidy s = (s \<noteq> [] \<and> \<not> double_space s \<and> \<not> is_space (hd s) \<and> \<not> is_space (last s))"

definition first_occurrences :: "'a list \<Rightarrow> 'a list" where
  \<comment> \<open>a list without the later repetitions of its elements\<close>
  "first_occurrences xs = rev (remdups (rev xs))"

definition spec_links :: "lib \<Rightarrow> node list \<Rightarrow> string \<Rightarrow> string list" where
  \<comment> \<open>the anchors that are not skipped, resolved, the valid ones kept, each once, in order\<close>
  "spec_links L soup base_url =
     first_occurrences (List.map_filter (make_absolute_url L base_url)
                          (filter (\<lambda>href. \<not> skipped_href href) (anchors soup)))"


text \<open>
  What holds of every value of the two program fields, and of a session between two calls.
\<close>

definition snapshot_ok :: "config \<Rightarrow> web \<Rightarrow> string set \<times> scraped_page list \<Rightarrow> bool" where
  "snapshot_ok c W snap =
     (set (map url (snd snap)) \<subseteq> fst snap \<and> distinct (map url (snd snap))
      \<and> int (length (snd snap)) \<le> max_pages c
      \<and> list_all (\<lambda>p. 0 \<le> depth p \<and> depth p \<le> max_depth c \<and> W (url p) \<noteq> None) (snd snap))"

definition session_ok :: "config \<Rightarrow> web \<Rightarrow> session \<Rightarrow> bool" where
  "session_ok c W s =
     (list_all (snapshot_ok c W) (history s) \<and> history s \<noteq> []
      \<and> last (history s) = (visited_urls s, scraped_pages s)
      \<and> distinct (requests s) \<and> set (requests s) = visited_urls s)"

text \<open>
  What is assumed of \<open>validators.url\<close> where a claim depends on it: it accepts no string
  that contains whitespace.
\<close>

definition rejects_whitespace :: "lib \<Rightarrow> bool" where
  "rejects_whitespace L = (\<forall>u. validators_url L u \<longrightarrow> list_all (\<lambda>c. \<not> is_space c) u)"

text \<open>
  A URL of the host \<open>h\<close>: it parses, its scheme is http or https and its network location
  is \<open>h\<close>, which is not empty. \<open>http_absolute\<close> leaves the host open. A snapshot, or a
  session with its history, is on a host when all its visited URLs and result URLs are.
\<close>

definition http_host :: "lib \<Rightarrow> string \<Rightarrow> string \<Rightarrow> bool" where
  "http_host L h u =
     (case urlparse L u of
        Inl e \<Rightarrow> False
      | Inr p \<Rightarrow> (scheme p = ''http'' \<or> scheme p = ''https'') \<and> netloc p = h \<and> h \<noteq> [])"

definition http_absolute :: "lib \<Rightarrow> string \<Rightarrow> bool" where
  "http_absolute L u =
     (case urlparse L u of
        Inl e \<Rightarrow> False
      | Inr p \<Rightarrow> (scheme p = ''http'' \<or> scheme p = ''https'') \<and> netloc p \<noteq> [])"

definition snapshot_on_host :: "lib \<Rightarrow> string \<Rightarrow> string set \<times> scraped_page list \<Rightarrow> bool" where
  "snapshot_on_host L h snap =
     ((\<forall>v\<in>fst snap. http_host L h v) \<and> list_all (\<lambda>p. http_host L h (url p)) (snd snap))"

definition hosts_ok :: "lib \<Rightarrow> string \<Rightarrow> session \<Rightarrow> bool" where
  "hosts_ok L h s =
     (list_all (snapshot_on_host L h) (history s)
      \<and> snapshot_on_host L h (visited_urls s, scraped_pages s))"

section \<open>Example inputs\<close>

text \<open>
  A library for the examples: a validator that accepts the strings without whitespace, a
  \<open>urljoin\<close> that resolves a path starting with a slash against the host \<open>a.com\<close> and
  returns any other reference as it is, and a parser that rejects no network location.
\<close>

definition example_lib :: lib where
  "example_lib =
     \<lparr>validators_url = (\<lambda>u. list_all (\<lambda>c. \<not> is_space c) u),
      urljoin = (\<lambda>b r. if startswith r ''/'' then Some (''https://a.com'' @ r) else Some r),
      netloc_rejected = (\<lambda>n. False)\<rparr>"

text \<open>
  A site of four pages on \<open>a.com\<close>: the start page links to \<open>/b\<close>, \<open>/c\<close>, another host and
  \<open>/b/\<close>; \<open>/b\<close> links to \<open>/d\<close> and \<open>/c\<close>; the request for \<open>/c\<close> fails. \<open>example_final\<close> is
  the state in which a crawl from \<open>a.com\<close> leaves a scraper.
\<close>

definition example_web :: web where
  "example_web u =
     (if u = ''https://a.com''
      then Some [Tag ''a'' [(''href'', ''/b'')] [], Tag ''a'' [(''href'', ''/c'')] [],
                 Tag ''a'' [(''href'', ''https://x.org/'')] [], Tag ''a'' [(''href'', ''/b/'')] []]
      else if u = ''https://a.com/b''
      then Some [Tag ''title'' [] [Text ''B''], Tag ''a'' [(''href'', ''/d'')] [],
                 Tag ''a'' [(''href'', ''/c'')] []]
      else if u = ''https://a.com/d'' then Some [Tag ''title'' [] [Text ''D'']]
      else None)"

definition example_config :: config where
  "example_config = \<lparr>max_depth = 3, max_pages = 50, delay = 1\<rparr>"

definition fresh :: session where
  "fresh = \<lparr>visited_urls = {}, scraped_pages = [], requests = [], history = []\<rparr>"


definition page_a :: scraped_page where
  "page_a = \<lparr>url = ''https://a.com'', title = ''Untitled'', content = [], metadata = [],
              links = [''https://a.com/b'', ''https://a.com/c'', ''https://x.org/'', ''https://a.com/b/''],
              depth = 0\<rparr>"

definition page_b :: scraped_page where
  "page_b = \<lparr>url = ''https://a.com/b'', title = ''B'', content = ''B'', metadata = [],
              links = [''https://a.com/d'', ''https://a.com/c''], depth = 1\<rparr>"

definition page_d :: scraped_page where
  "page_d = \<lparr>url = ''https://a.com/d'', title = ''D'', content = ''D'', metadata = [],
              links = [], depth = 2\<rparr>"

definition example_final :: session where
  "example_final =
     \<lparr>visited_urls = {''https://a.com'', ''https://a.com/b'', ''https://a.com/d'', ''https://a.com/c''},
      scraped_pages = [page_a, page_b, page_d],
      requests = [''https://a.com'', ''https://a.com/b'', ''https://a.com/d'', ''https://a.com/c''],
      history =
        [({}, []),
         ({''https://a.com''}, []),
         ({''https://a.com''}, [page_a]),
         ({''https://a.com'', ''https://a.com/b''}, [page_a]),
         ({''https://a.com'', ''https://a.com/b''}, [page_a, page_b]),
         ({''https://a.com'', ''https://a.com/b'', ''https://a.com/d''}, [page_a, page_b]),
         ({''https://a.com'', ''https://a.com/b'', ''https://a.com/d''}, [page_a, page_b, page_d]),
         ({''https://a.com'', ''https://a.com/b'', ''https://a.com/d'', ''https://a.com/c''},
          [page_a, page_b, page_d])]\<rparr>"

section \<open>Title extraction\<close>

lemma tag_string_get_text: "tag_string t = Some s \<Longrightarrow> get_text t = s"
  by (induction t arbitrary: s rule: tag_string.induct) auto

text \<open>
  Claim C6, as the program has it: when the page has a title element, the title is that
  element's string, stripped (the element's whole text in that case), and the empty string
  when the element has no single string; the first h1 is used only when there is no title
  element, and \<open>Untitled\<close> only when there is neither.
\<close>

theorem extract_title_cases:
  "(find_first (named [''title'']) soup = Some t \<and> tag_string t = Some s \<longrightarrow>
      extract_title soup = strip s \<and> get_text t = s)
   \<and> (find_first (named [''title'']) soup = Some t \<and> tag_string t = None \<longrightarrow>
      extract_title soup = [])
   \<and> (find_first (named [''title'']) soup = None \<and> find_first (named [''h1'']) soup = Some h \<longrightarrow>
      extract_title soup = strip (get_text h))
   \<and> (find_first (named [''title'']) soup = None \<and> find_first (named [''h1'']) soup = None \<longrightarrow>
      extract_title soup = ''Untitled'')"
  by (auto simp: extract_title_def strip_def tag_string_get_text)

theorem extract_title_cases_witness:
  "extract_title [Tag ''head'' [] [Tag ''title'' [] [Text '' Home '']], Tag ''h1'' [] [Text ''Top'']] = ''Home''
   \<and> extract_title [Tag ''title'' [] [Tag ''b'' [] [], Text ''x''], Tag ''h1'' [] [Text ''Top'']] = []
   \<and> extract_title [Tag ''body'' [] [Tag ''h1'' [] [Text ''Top ''], Tag ''h1'' [] [Text ''Second'']]] = ''Top''
   \<and> extract_title [Tag ''body'' [] [Text ''plain'']] = ''Untitled''"
  using extract_title_cases
          [of "[Tag ''head'' [] [Tag ''title'' [] [Text '' Home '']], Tag ''h1'' [] [Text ''Top'']]"
              "Tag ''title'' [] [Text '' Home '']" "'' Home ''" "Tag ''h1'' [] [Text ''Top'']"]
        extract_title_cases
          [of "[Tag ''title'' [] [Tag ''b'' [] [], Text ''x''], Tag ''h1'' [] [Text ''Top'']]"
              "Tag ''title'' [] [Tag ''b'' [] [], Text ''x'']" "[]" "Tag ''h1'' [] [Text ''Top'']"]
        extract_title_cases
          [of "[Tag ''body'' [] [Tag ''h1'' [] [Text ''Top ''], Tag ''h1'' [] [Text ''Second'']]]"
              "Text []" "[]" "Tag ''h1'' [] [Text ''Top '']"]
        extract_title_cases [of "[Tag ''body'' [] [Text ''plain'']]" "Text []" "[]" "Text []"]
  by (simp add: find_first_def find_all_def strip_def is_space_def)

theorem extract_title_empty_title_counterexample:
  "extract_title [Tag ''title'' [] [], Tag ''h1'' [] [Text ''Hello'']] = []
   \<and> spec_title [Tag ''title'' [] [], Tag ''h1'' [] [Text ''Hello'']] = ''Hello''"
  by (simp add: extract_title_def spec_title_def find_first_def find_all_def strip_def is_space_def)

section \<open>Content extraction\<close>

lemma prune_no_named: "\<not> named ns t \<Longrightarrow> filter (named ns) (tags_of (prune ns t)) = []"
proof (induction t)
  case (Text s) then show ?case by simp
next
  case (Tag n a cs)
  have "filter (named ns) (tags_of (prune ns c)) = []" if "c \<in> set cs" "\<not> named ns c" for c
    using Tag.IH that by simp
  then have "\<forall>c\<in>set (filter (\<lambda>c. \<not> named ns c) cs). filter (named ns) (tags_of (prune ns c)) = []"
    by simp
  then have "filter (named ns) (concat (map tags_of (map (prune ns) (filter (\<lambda>c. \<not> named ns c) cs)))) = []"
    by (simp add: filter_concat filter_empty_conv) 
  with Tag.prems show ?case by simp
qed

lemma decompose_all_none_left: "find_all (named ns) (decompose_all ns soup) = []"
  unfolding find_all_def decompose_all_def
  using prune_no_named [of ns] by (auto simp: filter_empty_conv)

lemma splitlines_from_no_break:
  "list_all (\<lambda>c. \<not> line_break c) cur \<Longrightarrow> l \<in> set (splitlines_from cur s) \<Longrightarrow> list_all (\<lambda>c. \<not> line_break c) l"
  by (induction cur s rule: splitlines_from.induct) (auto split: if_splits simp: line_break_def)

lemma split_from_set: "p \<in> set (split_from cur s) \<Longrightarrow> set p \<subseteq> set cur \<union> set s"
  by (induction cur s rule: split_from.induct) (auto split: if_splits)

lemma set_strip: "set (strip s) \<subseteq> set s"
  by (auto simp: strip_def dest!: set_dropWhileD)

lemma strip_ends: "strip s \<noteq> [] \<Longrightarrow> \<not> is_space (hd (strip s)) \<and> \<not> is_space (last (strip s))"
proof -
  assume ne: "strip s \<noteq> []"
  define t where "t = dropWhile is_space s"
  define y where "y = dropWhile is_space (rev t)"
  have s: "strip s = rev y" by (simp add: strip_def t_def y_def)
  with ne have y: "y \<noteq> []" by simp
  then have t: "t \<noteq> []" by (auto simp: y_def)
  have "\<not> is_space (hd y)" using y unfolding y_def by (rule hd_dropWhile)
  moreover have "\<not> is_space (hd t)" using t unfolding t_def by (rule hd_dropWhile)
  moreover have "last y = last (rev t)"
  proof -
    have "rev t = takeWhile is_space (rev t) @ y" by (simp add: y_def)
    then have "last (rev t) = last (takeWhile is_space (rev t) @ y)" by simp
    also have "\<dots> = last y" using y by simp
    finally show ?thesis by simp
  qed
  ultimately show ?thesis using s y t by (simp add: hd_rev last_rev)
qed

lemma double_space_Cons: "double_space s \<Longrightarrow> double_space (c # s)"
  by (cases s) auto

lemma double_space_iff: "double_space s \<longleftrightarrow> (\<exists>xs ys. s = xs @ CHR '' '' # CHR '' '' # ys)"
proof
  show "double_space s \<Longrightarrow> \<exists>xs ys. s = xs @ CHR '' '' # CHR '' '' # ys"
  proof (induction s rule: double_space.induct)
    case (1 c d s)
    show ?case
    proof (cases "c = CHR '' '' \<and> d = CHR '' ''")
      case True
      then have "c # d # s = [] @ CHR '' '' # CHR '' '' # s" by simp
      then show ?thesis by blast
    next
      case False
      with 1 obtain xs ys where "d # s = xs @ CHR '' '' # CHR '' '' # ys" by auto
      then have "c # d # s = (c # xs) @ CHR '' '' # CHR '' '' # ys" by simp
      then show ?thesis by blast
    qed
  qed auto
next
  assume "\<exists>xs ys. s = xs @ CHR '' '' # CHR '' '' # ys"
  then obtain xs ys where s: "s = xs @ CHR '' '' # CHR '' '' # ys" by blast
  have "double_space (xs @ CHR '' '' # CHR '' '' # ys)"
    by (induction xs) (auto intro: double_space_Cons)
  with s show "double_space s" by simp
qed

lemma double_space_rev: "double_space (rev s) = double_space s"
proof -
  have "double_space (rev t)" if "double_space t" for t
  proof -
    from that obtain xs ys where "t = xs @ CHR '' '' # CHR '' '' # ys"
      unfolding double_space_iff by blast
    then have "rev t = rev ys @ CHR '' '' # CHR '' '' # rev xs" by simp
    then show ?thesis unfolding double_space_iff by blast
  qed
  from this [of s] this [of "rev s"] show ?thesis by auto
qed

lemma double_space_appendI: "double_space ys \<Longrightarrow> double_space (xs @ ys)"
  by (induction xs) (auto intro: double_space_Cons)

lemma double_space_prefixI: "double_space xs \<Longrightarrow> double_space (xs @ ys)"
proof -
  assume "double_space xs"
  then obtain as bs where "xs = as @ CHR '' '' # CHR '' '' # bs" unfolding double_space_iff by blast
  then have "xs @ ys = as @ CHR '' '' # CHR '' '' # (bs @ ys)" by simp
  then show ?thesis unfolding double_space_iff by blast
qed

lemma double_space_dropWhile: "double_space (dropWhile P s) \<Longrightarrow> double_space s"
  using double_space_appendI [of "dropWhile P s" "takeWhile P s"] by simp

lemma double_space_strip: "double_space (strip s) \<Longrightarrow> double_space s"
  unfolding strip_def double_space_rev
  by (auto dest!: double_space_dropWhile simp: double_space_rev)

lemma double_space_snoc2:
  "double_space (xs @ [c, d]) \<longleftrightarrow> double_space (xs @ [c]) \<or> (c = CHR '' '' \<and> d = CHR '' '')"
proof (induction xs)
  case Nil then show ?case by simp
next
  case (Cons x xs) then show ?case by (cases xs) auto
qed

lemma split_from_no_double_space:
  "\<not> double_space (rev cur @ take 1 s) \<Longrightarrow> p \<in> set (split_from cur s) \<Longrightarrow> \<not> double_space p"
proof (induction cur s rule: split_from.induct)
  case (1 cur) then show ?case by simp
next
  case (2 cur c) then show ?case by simp
next
  case (3 cur c d s)
  show ?case
  proof (cases "c = CHR '' '' \<and> d = CHR '' ''")
    case True
    with 3 show ?thesis
      by (cases s) (auto dest: double_space_prefixI)
  next
    case False
    with "3.prems" have "\<not> double_space (rev (c # cur) @ take 1 (d # s))"
      by (simp add: double_space_snoc2)
    with 3 False show ?thesis by simp
  qed
qed

lemma split_double_space_pieces: "p \<in> set (split_double_space s) \<Longrightarrow> \<not> double_space p"
  unfolding split_double_space_def
  by (rule split_from_no_double_space [of "[]" s]) (cases s; simp)+

lemma space_is_space: "is_space CHR '' ''"
  by (simp add: is_space_def)

lemma no_double_space_join:
  "x \<noteq> [] \<Longrightarrow> \<not> double_space x \<Longrightarrow> last x \<noteq> CHR '' '' \<Longrightarrow>
   z \<noteq> [] \<Longrightarrow> hd z \<noteq> CHR '' '' \<Longrightarrow> \<not> double_space z \<Longrightarrow>
   \<not> double_space (x @ CHR '' '' # z)"
proof (induction x)
  case Nil then show ?case by simp
next
  case (Cons a x')
  show ?case
  proof (cases x')
    case Nil
    with Cons.prems show ?thesis by (cases z) auto
  next
    case (Cons b x'')
    with Cons.prems have "\<not> double_space x'" "last x' \<noteq> CHR '' ''" "x' \<noteq> []"
      by (auto split: if_splits)
    with Cons.IH Cons.prems have "\<not> double_space (x' @ CHR '' '' # z)" by simp
    with Cons Cons.prems show ?thesis by (auto split: if_splits)
  qed
qed

lemma tidy_join2: "tidy x \<Longrightarrow> tidy z \<Longrightarrow> tidy (x @ CHR '' '' # z)"
proof -
  assume x: "tidy x" and z: "tidy z"
  from x have "last x \<noteq> CHR '' ''" using space_is_space by (auto simp: tidy_def)
  moreover from z have "hd z \<noteq> CHR '' ''" using space_is_space by (auto simp: tidy_def)
  ultimately have "\<not> double_space (x @ CHR '' '' # z)"
    using x z no_double_space_join [of x z] by (simp add: tidy_def)
  with x z show ?thesis by (simp add: tidy_def)
qed

lemma tidy_join_space: "cs \<noteq> [] \<Longrightarrow> list_all tidy cs \<Longrightarrow> tidy (join_space cs)"
  by (induction cs rule: join_space.induct) (auto intro: tidy_join2)

lemma set_join_space: "set (join_space cs) \<subseteq> insert CHR '' '' (\<Union> (set ` set cs))"
  by (induction cs rule: join_space.induct) auto

lemma strip_tidy: "s = [] \<or> tidy s \<Longrightarrow> strip s = s"
proof (cases "s = []")
  case True then show ?thesis by (simp add: strip_def)
next
  case False
  assume "s = [] \<or> tidy s"
  with False have t: "\<not> is_space (hd s)" "\<not> is_space (last s)" by (auto simp: tidy_def)
  from False t(1) have 1: "dropWhile is_space s = s" by (cases s) auto
  from False t(2) have 2: "dropWhile is_space (rev s) = rev s" by (cases "rev s") (auto simp: last_rev hd_rev)
  show ?thesis by (simp add: strip_def 1 2)
qed

lemma clean_text_chunks:
  assumes "c \<in> set (filter (\<lambda>chunk. chunk \<noteq> [])
             (map strip (concat (map split_double_space (map strip (splitlines text))))))"
  shows "tidy c \<and> list_all (\<lambda>x. \<not> line_break x) c"
proof -
  from assms obtain l0 p where l0: "l0 \<in> set (splitlines text)"
    and p: "p \<in> set (split_double_space (strip l0))" and c: "c = strip p" "c \<noteq> []"
    by auto
  from p have "\<not> double_space p" by (rule split_double_space_pieces)
  with c have 1: "\<not> double_space c" using double_space_strip by blast
  from c have 2: "\<not> is_space (hd c) \<and> \<not> is_space (last c)" using strip_ends by blast
  from l0 have "list_all (\<lambda>x. \<not> line_break x) l0"
    unfolding splitlines_def by (rule splitlines_from_no_break [rotated]) simp
  moreover have "set c \<subseteq> set l0"
    using c p set_strip [of p] set_strip [of l0] split_from_set [of p "[]" "strip l0"]
    unfolding split_double_space_def by auto
  ultimately have "list_all (\<lambda>x. \<not> line_break x) c" by (auto simp: list_all_iff)
  with 1 2 c show ?thesis by (simp add: tidy_def)
qed

lemma clean_text_tidy:
  "(clean_text text = [] \<or> tidy (clean_text text)) \<and> list_all (\<lambda>x. \<not> line_break x) (clean_text text)"
proof -
  define cs where "cs = filter (\<lambda>chunk. chunk \<noteq> [])
             (map strip (concat (map split_double_space (map strip (splitlines text)))))"
  have ct: "clean_text text = join_space cs" by (simp add: clean_text_def cs_def)
  have all: "\<forall>c\<in>set cs. tidy c \<and> list_all (\<lambda>x. \<not> line_break x) c"
    using clean_text_chunks unfolding cs_def by blast
  have a: "clean_text text = [] \<or> tidy (clean_text text)"
  proof (cases "cs = []")
    case True then show ?thesis by (simp add: ct)
  next
    case False
    with all show ?thesis using tidy_join_space [of cs] by (simp add: ct list_all_iff)
  qed
  have "\<not> line_break CHR '' ''" by (simp add: line_break_def)
  with all have "list_all (\<lambda>x. \<not> line_break x) (join_space cs)"
    using set_join_space [of cs] by (auto simp: list_all_iff)
  with a show ?thesis by (simp add: ct)
qed


lemma line_break_is_space: "line_break c \<Longrightarrow> is_space c"
  by (auto simp: line_break_def is_space_def Let_def)

lemma words_from_space:
  "is_space w \<Longrightarrow> words_from cur (a @ w # b) = words_from cur a @ words_from [] b"
  by (induction a arbitrary: cur) auto

lemma words_from_spaces: "list_all is_space ws \<Longrightarrow> words_from [] ws = []"
  by (induction ws) auto

lemma words_from_trailing:
  "list_all is_space ws \<Longrightarrow> words_from cur (t @ ws) = words_from cur t"
  by (cases ws) (auto simp: words_from_space words_from_spaces)

lemma words_from_leading: "words_from [] (dropWhile is_space s) = words_from [] s"
  by (induction s) auto

lemma words_strip: "words_from [] (strip s) = words_from [] s"
proof -
  define t where "t = dropWhile is_space s"
  have "t = rev (dropWhile is_space (rev t)) @ rev (takeWhile is_space (rev t))"
    by (metis rev_append rev_rev_ident takeWhile_dropWhile_id)
  moreover have "list_all is_space (rev (takeWhile is_space (rev t)))"
    by (auto simp: list_all_iff dest: set_takeWhileD)
  ultimately have "words_from [] t = words_from [] (rev (dropWhile is_space (rev t)))"
    using words_from_trailing [of "rev (takeWhile is_space (rev t))" "[]" "rev (dropWhile is_space (rev t))"]
    by simp
  then show ?thesis by (simp add: strip_def t_def words_from_leading)
qed

lemma words_join_space: "words_from [] (join_space cs) = concat (map (words_from []) cs)"
  by (induction cs rule: join_space.induct) (auto simp: words_from_space space_is_space)

lemma words_split_from: "concat (map (words_from []) (split_from cur s)) = words_from [] (rev cur @ s)"
proof (induction cur s rule: split_from.induct)
  case (3 cur c d s)
  show ?case
  proof (cases "c = CHR '' '' \<and> d = CHR '' ''")
    case True
    with 3 show ?thesis
      using words_from_space [of "CHR '' ''" "[]" "rev cur" "CHR '' '' # s"] space_is_space by simp
  next
    case False
    with 3 show ?thesis by auto
  qed
qed auto

lemma words_splitlines_from:
  "concat (map (words_from []) (splitlines_from cur s)) = words_from [] (rev cur @ s)"
proof (induction cur s rule: splitlines_from.induct)
  case (1 cur) then show ?case by simp
next
  case (2 cur c)
  then show ?case
    using words_from_trailing [of "[c]" "[]" "rev cur"] by (auto dest: line_break_is_space)
next
  case (3 cur c d s)
  have cr: "is_space (CHR 0x0D)" and lf: "is_space (CHR 0x0A)" by (simp_all add: is_space_def)
  show ?case
  proof (cases "c = CHR 0x0D \<and> d = CHR 0x0A")
    case True
    with 3 show ?thesis
      using words_from_space [of "CHR 0x0D" "[]" "rev cur" "CHR 0x0A # s"] cr lf by simp
  next
    case False
    show ?thesis
    proof (cases "line_break c")
      case True
      with 3 False show ?thesis
        using words_from_space [of c "[]" "rev cur" "d # s"] by (auto dest: line_break_is_space)
    next
      case lb: False
      with 3 False show ?thesis by auto
    qed
  qed
qed

lemma concat_words_filter:
  "concat (map (words_from []) (filter (\<lambda>x. x \<noteq> []) xs)) = concat (map (words_from []) xs)"
  by (induction xs) auto

lemma concat_words_strip:
  "concat (map (words_from []) (map strip xs)) = concat (map (words_from []) xs)"
  by (induction xs) (auto simp: words_strip)

lemma concat_words_split:
  "concat (map (words_from []) (concat (map split_double_space ls))) = concat (map (words_from []) ls)"
  by (induction ls) (auto simp: split_double_space_def words_split_from)

lemma words_clean_text: "words_from [] (clean_text text) = words_from [] text"
proof -
  have "words_from [] (clean_text text) =
        concat (map (words_from []) (filter (\<lambda>chunk. chunk \<noteq> [])
          (map strip (concat (map split_double_space (map strip (splitlines text)))))))"
    by (simp only: clean_text_def Let_def words_join_space)
  also have "\<dots> = concat (map (words_from [])
          (map strip (concat (map split_double_space (map strip (splitlines text))))))"
    by (rule concat_words_filter)
  also have "\<dots> = concat (map (words_from [])
          (concat (map split_double_space (map strip (splitlines text)))))"
    by (rule concat_words_strip)
  also have "\<dots> = concat (map (words_from []) (map strip (splitlines text)))"
    by (rule concat_words_split)
  also have "\<dots> = concat (map (words_from []) (splitlines text))"
    by (rule concat_words_strip)
  also have "\<dots> = words_from [] text"
    using words_splitlines_from [of "[]" "text"] by (simp only: splitlines_def rev.simps append_Nil)
  finally show ?thesis .
qed


lemma join_words_from:
  "\<forall>c\<in>set s. is_space c \<longrightarrow> c = CHR '' '' \<Longrightarrow> \<not> double_space s \<Longrightarrow>
   (s \<noteq> [] \<longrightarrow> last s \<noteq> CHR '' '') \<Longrightarrow> (cur \<noteq> [] \<or> s = [] \<or> hd s \<noteq> CHR '' '') \<Longrightarrow>
   join_space (words_from cur s) = rev cur @ s"
proof (induction s arbitrary: cur)
  case Nil then show ?case by simp
next
  case (Cons c s')
  show ?case
  proof (cases "is_space c")
    case True
    with Cons.prems have c: "c = CHR '' ''" and cur: "cur \<noteq> []" by auto
    from Cons.prems c have s': "s' \<noteq> []" by auto
    with Cons.prems c have hd: "hd s' \<noteq> CHR '' ''" by (cases s') (auto split: if_splits)
    from Cons.prems s' have "\<not> double_space s'" "last s' \<noteq> CHR '' ''"
      by (auto dest: double_space_Cons)
    with Cons.IH [of "[]"] Cons.prems hd have j: "join_space (words_from [] s') = s'" by simp
    with s' obtain y ys where w: "words_from [] s' = y # ys" by (cases "words_from [] s'") auto
    from True cur have "join_space (words_from cur (c # s')) = join_space (rev cur # y # ys)"
      by (simp add: w)
    also have "\<dots> = rev cur @ CHR '' '' # join_space (y # ys)" by simp
    finally show ?thesis using j w c by simp
  next
    case False
    from Cons.prems have "\<not> double_space s'" "s' \<noteq> [] \<longrightarrow> last s' \<noteq> CHR '' ''"
      by (auto dest: double_space_Cons)
    with Cons.IH [of "c # cur"] Cons.prems have "join_space (words_from (c # cur) s') = rev (c # cur) @ s'"
      by simp
    with False show ?thesis by simp
  qed
qed

lemma splitlines_from_set: "l \<in> set (splitlines_from cur s) \<Longrightarrow> set l \<subseteq> set cur \<union> set s"
  by (induction cur s rule: splitlines_from.induct) (auto split: if_splits)

lemma set_clean_text: "set (clean_text t) \<subseteq> insert CHR '' '' (set t)"
proof
  fix c assume "c \<in> set (clean_text t)"
  then have "c = CHR '' '' \<or> (\<exists>l0 p. l0 \<in> set (splitlines t) \<and> p \<in> set (split_double_space (strip l0)) \<and> c \<in> set (strip p))"
    using set_join_space [of "filter (\<lambda>chunk. chunk \<noteq> [])
             (map strip (concat (map split_double_space (map strip (splitlines t)))))"]
    by (auto simp: clean_text_def)
  then show "c \<in> insert CHR '' '' (set t)"
    using set_strip split_from_set [of _ "[]"] splitlines_from_set [of _ "[]" t]
    unfolding split_double_space_def splitlines_def by fastforce
qed

lemma clean_text_spec:
  assumes "\<forall>c\<in>set t. is_space c \<longrightarrow> c = CHR '' '' \<or> line_break c"
  shows "clean_text t = join_space (words_from [] t)"
proof -
  let ?r = "clean_text t"
  have tidy: "?r = [] \<or> tidy ?r" and nb: "list_all (\<lambda>x. \<not> line_break x) ?r"
    using clean_text_tidy [of t] by auto
  have ws: "\<forall>c\<in>set ?r. is_space c \<longrightarrow> c = CHR '' ''"
    using assms nb set_clean_text [of t] by (auto simp: list_all_iff)
  have "join_space (words_from [] ?r) = rev [] @ ?r"
    using tidy ws space_is_space by (intro join_words_from) (auto simp: tidy_def)
  then show ?thesis by (simp add: words_clean_text)
qed

lemma split_from_whole: "\<not> double_space (rev cur @ s) \<Longrightarrow> split_from cur s = [rev cur @ s]"
proof (induction cur s rule: split_from.induct)
  case (3 cur c d s)
  have "\<not> (c = CHR '' '' \<and> d = CHR '' '')"
  proof
    assume "c = CHR '' '' \<and> d = CHR '' ''"
    then have "double_space (c # d # s)" by simp
    then have "double_space (rev cur @ c # d # s)" by (rule double_space_appendI)
    with "3.prems" show False by simp
  qed
  with 3 show ?case by simp
qed simp_all

lemma splitlines_from_whole:
  "list_all (\<lambda>c. \<not> line_break c) s \<Longrightarrow> rev cur @ s \<noteq> [] \<Longrightarrow> splitlines_from cur s = [rev cur @ s]"
  by (induction cur s rule: splitlines_from.induct) (auto simp: line_break_def)

lemma clean_text_unchanged:
  assumes "tidy t" and "list_all (\<lambda>c. \<not> line_break c) t"
  shows "clean_text t = t"
proof -
  from assms(1) have ne: "t \<noteq> []" and nd: "\<not> double_space t" by (simp_all add: tidy_def)
  from assms(1) have st: "strip t = t" by (intro strip_tidy) simp
  from assms(2) ne have 1: "splitlines t = [t]"
    using splitlines_from_whole [of t "[]"] by (simp add: splitlines_def)
  from nd have 2: "split_double_space t = [t]"
    using split_from_whole [of "[]" t] by (simp add: split_double_space_def)
  show ?thesis by (simp add: clean_text_def 1 2 st ne)
qed

text \<open>
  Claim C7, as the program has it: the content is computed from the page without its
  script, style, nav, footer, header and aside elements; it has the same words in the same
  order as that text, no line break, no two adjacent spaces and no whitespace at either
  end. A non-empty text without line break, two adjacent spaces or whitespace at its ends
  is returned as it is, so a whitespace run without a line break and without two adjacent
  spaces (two tabs between two words, say) is not collapsed; when the only whitespace of
  the text is spaces and line breaks, the content is the text with every whitespace run
  collapsed to one space. The page \<open><script>ignored</script><p>Hello  World</p>\<close> gives
  \<open>Hello World\<close>.
\<close>

theorem extract_content_cleaned:
  "find_all (named removed_tags) (snd (extract_content soup)) = []
   \<and> words_from [] (fst (extract_content soup))
       = words_from [] (concat (map get_text (decompose_all removed_tags soup)))
   \<and> list_all (\<lambda>c. \<not> line_break c) (fst (extract_content soup))
   \<and> \<not> double_space (fst (extract_content soup))
   \<and> strip (fst (extract_content soup)) = fst (extract_content soup)
   \<and> (tidy (concat (map get_text (decompose_all removed_tags soup)))
        \<and> list_all (\<lambda>c. \<not> line_break c) (concat (map get_text (decompose_all removed_tags soup)))
        \<longrightarrow> fst (extract_content soup) = concat (map get_text (decompose_all removed_tags soup)))
   \<and> ((\<forall>c\<in>set (concat (map get_text (decompose_all removed_tags soup))).
          is_space c \<longrightarrow> c = CHR '' '' \<or> line_break c)
        \<longrightarrow> fst (extract_content soup) = spec_content soup)
   \<and> fst (extract_content [Tag ''script'' [] [Text ''ignored''], Tag ''p'' [] [Text ''Hello  World'']])
       = ''Hello World''"
proof -
  let ?t = "concat (map get_text (decompose_all removed_tags soup))"
  have f: "fst (extract_content soup) = clean_text ?t" and s: "snd (extract_content soup) = decompose_all removed_tags soup"
    by (simp_all add: extract_content_def Let_def)
  have 1: "find_all (named removed_tags) (snd (extract_content soup)) = []"
    by (simp only: s decompose_all_none_left)
  have 2: "words_from [] (fst (extract_content soup)) = words_from [] ?t"
    by (simp only: f words_clean_text)
  have t: "clean_text ?t = [] \<or> tidy (clean_text ?t)" and 3: "list_all (\<lambda>c. \<not> line_break c) (clean_text ?t)"
    using clean_text_tidy [of ?t] by auto
  from t have 4: "\<not> double_space (clean_text ?t)" by (auto simp: tidy_def)
  from t have 5: "strip (clean_text ?t) = clean_text ?t" by (rule strip_tidy)
  have 6: "(\<forall>c\<in>set ?t. is_space c \<longrightarrow> c = CHR '' '' \<or> line_break c) \<longrightarrow> clean_text ?t = spec_content soup"
    using clean_text_spec [of ?t] by (simp add: spec_content_def)
  have 7: "fst (extract_content [Tag ''script'' [] [Text ''ignored''], Tag ''p'' [] [Text ''Hello  World'']]) = ''Hello World''"
    by (simp add: extract_content_def decompose_all_def removed_tags_def clean_text_def
          splitlines_def split_double_space_def strip_def is_space_def line_break_def)
  have 8: "tidy ?t \<and> list_all (\<lambda>c. \<not> line_break c) ?t \<longrightarrow> clean_text ?t = ?t"
    using clean_text_unchanged [of ?t] by blast
  from 1 2 3 4 5 6 7 8 show ?thesis by (simp only: f) simp
qed

theorem extract_content_cleaned_witness:
  "fst (extract_content [Tag ''body'' [] [Tag ''nav'' [] [Text ''menu''], Tag ''p'' [] [Text '' a   b ''], Text [CHR 0x0A], Tag ''p'' [] [Text ''c'']]])
     = ''a b c''
   \<and> spec_content [Tag ''body'' [] [Tag ''nav'' [] [Text ''menu''], Tag ''p'' [] [Text '' a   b ''], Text [CHR 0x0A], Tag ''p'' [] [Text ''c'']]]
     = ''a b c''
   \<and> fst (extract_content [Tag ''script'' [] [Text ''x''], Tag ''p'' [] [Text [CHR ''a'', CHR 0x09, CHR 0x09, CHR ''b'']]])
     = [CHR ''a'', CHR 0x09, CHR 0x09, CHR ''b'']"
proof -
  have 1: "fst (extract_content [Tag ''body'' [] [Tag ''nav'' [] [Text ''menu''], Tag ''p'' [] [Text '' a   b ''], Text [CHR 0x0A], Tag ''p'' [] [Text ''c'']]])
     = ''a b c''
   \<and> spec_content [Tag ''body'' [] [Tag ''nav'' [] [Text ''menu''], Tag ''p'' [] [Text '' a   b ''], Text [CHR 0x0A], Tag ''p'' [] [Text ''c'']]]
     = ''a b c''"
    using extract_content_cleaned [of "[Tag ''body'' [] [Tag ''nav'' [] [Text ''menu''], Tag ''p'' [] [Text '' a   b ''], Text [CHR 0x0A], Tag ''p'' [] [Text ''c'']]]"]
    by (simp add: spec_content_def decompose_all_def removed_tags_def is_space_def line_break_def)
  have 2: "fst (extract_content [Tag ''script'' [] [Text ''x''], Tag ''p'' [] [Text [CHR ''a'', CHR 0x09, CHR 0x09, CHR ''b'']]])
     = [CHR ''a'', CHR 0x09, CHR 0x09, CHR ''b'']"
    using extract_content_cleaned [of "[Tag ''script'' [] [Text ''x''], Tag ''p'' [] [Text [CHR ''a'', CHR 0x09, CHR 0x09, CHR ''b'']]]"]
    by (simp add: decompose_all_def removed_tags_def tidy_def is_space_def line_break_def)
  from 1 2 show ?thesis by simp
qed

theorem extract_content_tab_counterexample:
  "fst (extract_content [Tag ''p'' [] [Text [CHR ''a'', CHR 0x09, CHR 0x09, CHR ''b'']]]) = [CHR ''a'', CHR 0x09, CHR 0x09, CHR ''b'']
   \<and> spec_content [Tag ''p'' [] [Text [CHR ''a'', CHR 0x09, CHR 0x09, CHR ''b'']]] = ''a b''"
  by (simp add: extract_content_def spec_content_def decompose_all_def removed_tags_def clean_text_def
        splitlines_def split_double_space_def strip_def is_space_def line_break_def)

section \<open>Link extraction\<close>

lemma first_occurrences_snoc:
  "first_occurrences (xs @ [x]) = (if x \<in> set xs then first_occurrences xs else first_occurrences xs @ [x])"
  by (simp add: first_occurrences_def)

lemma set_first_occurrences: "set (first_occurrences xs) = set xs"
  by (simp add: first_occurrences_def)

lemma distinct_first_occurrences: "distinct (first_occurrences xs)"
  by (simp add: first_occurrences_def)

lemma make_absolute_url_valid:
  "make_absolute_url L b r = Some a \<Longrightarrow> is_valid_url L a = Inr True"
  by (auto simp: make_absolute_url_def split: option.splits sum.splits if_splits)

lemma valid_nonempty: "is_valid_url L a = Inr True \<Longrightarrow> a \<noteq> []"
  by (auto simp: is_valid_url_def)

lemma extract_links_loop_spec:
  "extract_links_loop L b hrefs (first_occurrences pre) =
     first_occurrences (pre @ List.map_filter (make_absolute_url L b)
                                (filter (\<lambda>href. \<not> skipped_href href) hrefs))"
proof (induction hrefs arbitrary: pre)
  case Nil
  then show ?case by (simp add: map_filter_simps)
next
  case (Cons h hs)
  show ?case
  proof (cases "skipped_href h")
    case True
    with Cons show ?thesis by simp
  next
    case False
    show ?thesis
    proof (cases "make_absolute_url L b h")
      case None
      with False Cons show ?thesis by (simp add: map_filter_simps)
    next
      case (Some a)
      then have ne: "a \<noteq> []" using make_absolute_url_valid valid_nonempty by blast
      have "extract_links_loop L b (h # hs) (first_occurrences pre)
            = extract_links_loop L b hs (first_occurrences (pre @ [a]))"
        using False Some ne by (simp add: first_occurrences_snoc set_first_occurrences)
      also have "\<dots> = first_occurrences ((pre @ [a]) @ List.map_filter (make_absolute_url L b)
                                (filter (\<lambda>href. \<not> skipped_href href) hs))"
        by (rule Cons.IH)
      finally show ?thesis using False Some by (simp add: map_filter_simps)
    qed
  qed
qed

lemma extract_links_spec: "extract_links L soup b = spec_links L soup b"
  using extract_links_loop_spec [of L b "anchors soup" "[]"]
  by (simp add: extract_links_def spec_links_def first_occurrences_def)

text \<open>
  Claim C8: the extracted links are, in document order and each once (at its first
  occurrence), the absolute URLs of the anchors whose href does not start with \<open>#\<close>,
  \<open>javascript:\<close>, \<open>mailto:\<close> or \<open>tel:\<close> and that \<open>make_absolute_url\<close> resolves to a valid
  URL. On the base \<open>https://a.com/\<close> the anchors \<open>#top\<close>, \<open>mailto:x@y.com\<close> and \<open>/about\<close> give
  the single link \<open>https://a.com/about\<close>, for a library that resolves \<open>/about\<close> to it and
  accepts it.
\<close>

theorem extract_links_in_order:
  "extract_links L soup b = spec_links L soup b
   \<and> distinct (extract_links L soup b)
   \<and> set (extract_links L soup b)
       = {a. \<exists>href\<in>set (anchors soup). \<not> skipped_href href \<and> make_absolute_url L b href = Some a}
   \<and> (\<forall>a\<in>set (extract_links L soup b). is_valid_url L a = Inr True)
   \<and> (urljoin L ''https://a.com/'' ''/about'' = Some ''https://a.com/about''
        \<and> validators_url L ''https://a.com/about'' \<and> \<not> netloc_rejected L ''a.com''
      \<longrightarrow> extract_links L [Tag ''a'' [(''href'', ''#top'')] [], Tag ''a'' [(''href'', ''mailto:x@y.com'')] [],
                             Tag ''a'' [(''href'', ''/about'')] []] ''https://a.com/''
          = [''https://a.com/about''])"
proof -
  have 1: "extract_links L soup b = spec_links L soup b" by (rule extract_links_spec)
  have 2: "distinct (spec_links L soup b)" by (simp add: spec_links_def distinct_first_occurrences)
  have 3: "set (spec_links L soup b)
       = {a. \<exists>href\<in>set (anchors soup). \<not> skipped_href href \<and> make_absolute_url L b href = Some a}"
    by (force simp: spec_links_def set_first_occurrences List.map_filter_def)
  have 4: "\<forall>a\<in>set (spec_links L soup b). is_valid_url L a = Inr True"
    unfolding 3 using make_absolute_url_valid by blast
  have 5: "urljoin L ''https://a.com/'' ''/about'' = Some ''https://a.com/about''
        \<and> validators_url L ''https://a.com/about'' \<and> \<not> netloc_rejected L ''a.com''
      \<longrightarrow> extract_links L [Tag ''a'' [(''href'', ''#top'')] [], Tag ''a'' [(''href'', ''mailto:x@y.com'')] [],
                             Tag ''a'' [(''href'', ''/about'')] []] ''https://a.com/''
          = [''https://a.com/about'']"
    by (simp add: extract_links_def anchors_def find_all_def map_filter_simps skipped_href_def startswith_def
          make_absolute_url_def is_valid_url_def urlparse_def urlsplit_def c0_control_or_space_def
          unsafe_url_byte_def split_scheme_def before_def after_def is_ascii_alpha_def scheme_char_def
          lower_char_def splitnetloc_def netloc_delim_def uses_params_def)
  from 1 2 3 4 5 show ?thesis by (simp only: 1)
qed

theorem extract_links_in_order_witness:
  "extract_links example_lib [Tag ''a'' [(''href'', ''#top'')] [], Tag ''a'' [(''href'', ''mailto:x@y.com'')] [],
                      Tag ''a'' [(''href'', ''/about'')] []] ''https://a.com/''
     = [''https://a.com/about'']"
proof -
  have "urljoin example_lib ''https://a.com/'' ''/about'' = Some ''https://a.com/about''
        \<and> validators_url example_lib ''https://a.com/about'' \<and> \<not> netloc_rejected example_lib ''a.com''"
    by (simp add: example_lib_def startswith_def is_space_def)
  with extract_links_in_order
          [of example_lib "[Tag ''a'' [(''href'', ''#top'')] [], Tag ''a'' [(''href'', ''mailto:x@y.com'')] [],
                      Tag ''a'' [(''href'', ''/about'')] []]" "''https://a.com/''"]
  show ?thesis by blast
qed

section \<open>Invariants of a crawl\<close>

lemma scrape_page_result:
  "scrape_page L W u d s = (r, s') \<Longrightarrow>
     s' = s\<lparr>requests := requests s @ [u]\<rparr> \<and> (r = None \<longleftrightarrow> W u = None)
     \<and> (\<forall>p. r = Some p \<longrightarrow> url p = u \<and> depth p = d)"
  by (auto simp: scrape_page_def Let_def split: option.splits prod.splits)

lemma session_ok_snapshot: "session_ok c W s \<Longrightarrow> snapshot_ok c W (visited_urls s, scraped_pages s)"
  unfolding session_ok_def by (metis last_in_set list_all_iff)

lemma session_ok_failed:
  assumes "session_ok c W s" "u \<notin> visited_urls s"
  shows "session_ok c W ((mark_visited u s)\<lparr>requests := requests (mark_visited u s) @ [u]\<rparr>)"
proof -
  from assms(1) have "snapshot_ok c W (visited_urls s, scraped_pages s)" by (rule session_ok_snapshot)
  then have "snapshot_ok c W (insert u (visited_urls s), scraped_pages s)"
    by (auto simp: snapshot_ok_def)
  with assms show ?thesis by (auto simp: session_ok_def mark_visited_def)
qed

lemma session_ok_appended:
  assumes "session_ok c W s" "u \<notin> visited_urls s" "\<not> max_pages c \<le> int (length (scraped_pages s))"
    "0 \<le> d" "d \<le> max_depth c" "url p = u" "depth p = d" "W u \<noteq> None"
  shows "session_ok c W (append_page p ((mark_visited u s)\<lparr>requests := requests (mark_visited u s) @ [u]\<rparr>))"
proof -
  from assms(1,2) have 1: "session_ok c W ((mark_visited u s)\<lparr>requests := requests (mark_visited u s) @ [u]\<rparr>)"
    by (rule session_ok_failed)
  from assms(1) have "snapshot_ok c W (visited_urls s, scraped_pages s)" by (rule session_ok_snapshot)
  with assms have "snapshot_ok c W (insert u (visited_urls s), scraped_pages s @ [p])"
    by (auto simp: snapshot_ok_def)
  with 1 show ?thesis by (auto simp: session_ok_def mark_visited_def append_page_def)
qed

lemma crawl_session_ok:
  "(session_ok c W s \<longrightarrow> 0 \<le> d \<longrightarrow> session_ok c W (crawl_recursive c L W u0 d s))"
  "(session_ok c W s \<longrightarrow> 0 \<le> d \<longrightarrow> session_ok c W (follow_links c L W u d ls s))"
proof (induction c L W u0 d s and c L W u d ls s rule: crawl_recursive_follow_links.induct)
  case (1 c L W u0 d s)
  show ?case
  proof (intro impI)
    assume ok: "session_ok c W s" and d: "0 \<le> d"
    let ?u = "clean_url u0"
    show "session_ok c W (crawl_recursive c L W u0 d s)"
    proof (cases "max_depth c < d \<or> max_pages c \<le> int (length (scraped_pages s)) \<or> ?u \<in> visited_urls s")
      case True
      with ok show ?thesis by (auto simp: crawl_recursive.simps Let_def)
    next
      case False
      obtain r s' where sp: "scrape_page L W ?u d (mark_visited ?u s) = (r, s')" by fastforce
      note res = scrape_page_result [OF sp]
      show ?thesis
      proof (cases r)
        case None
        with False sp res ok show ?thesis
          using session_ok_failed [of c W s ?u] by (simp add: crawl_recursive.simps Let_def)
      next
        case (Some page)
        with res have pg: "url page = ?u" "depth page = d" "W ?u \<noteq> None" by auto
        from False have "session_ok c W (append_page page s')"
          using session_ok_appended [of c W s ?u d page] ok d pg res by simp
        with "1.IH" [of ?u r s' page] False sp Some d
        have "session_ok c W (follow_links c L W ?u d (links page) (append_page page s'))" by simp
        with False sp Some show ?thesis by (simp add: crawl_recursive.simps Let_def)
      qed
    qed
  qed
next
  case (2 c L W u d s)
  show ?case by simp
next
  case (3 c L W u d link rest s)
  then show ?case by auto
qed


lemma example_run:
  "scrape_website example_config example_lib example_web ''a.com'' fresh
     = (Inr [page_a, page_b, page_d], example_final)"
  by code_simp

lemma new_session_ok: "0 \<le> max_pages c \<Longrightarrow> session_ok c W (new_session s)"
  by (simp add: session_ok_def snapshot_ok_def new_session_def)

lemma crawl_history_extends:
  "\<exists>xs. history (crawl_recursive c L W u0 d s) = history s @ xs"
  "\<exists>xs. history (follow_links c L W u d ls s) = history s @ xs"
proof (induction c L W u0 d s and c L W u d ls s rule: crawl_recursive_follow_links.induct)
  case (1 c L W u0 d s)
  let ?u = "clean_url u0"
  show ?case
  proof (cases "max_depth c < d \<or> max_pages c \<le> int (length (scraped_pages s)) \<or> ?u \<in> visited_urls s")
    case True
    then show ?thesis by (auto simp: crawl_recursive.simps Let_def)
  next
    case False
    obtain r s' where sp: "scrape_page L W ?u d (mark_visited ?u s) = (r, s')" by fastforce
    note res = scrape_page_result [OF sp]
    show ?thesis
    proof (cases r)
      case None
      with False sp res show ?thesis by (simp add: crawl_recursive.simps Let_def mark_visited_def)
    next
      case (Some page)
      with "1.IH" [of ?u r s' page] False sp
      obtain xs where "history (follow_links c L W ?u d (links page) (append_page page s'))
                        = history (append_page page s') @ xs" by auto
      with False sp Some res show ?thesis
        by (simp add: crawl_recursive.simps Let_def mark_visited_def append_page_def)
    qed
  qed
next
  case (2 c L W u d s)
  show ?case by simp
next
  case (3 c L W u d link rest s)
  then show ?case by (auto simp del: append_assoc) (metis append_assoc)
qed

lemma scrape_website_started:
  "normalize_url L start = Inr (Some n) \<Longrightarrow>
     scrape_website c L W start s =
       (Inr (scraped_pages (crawl_recursive c L W n 0 (new_session s))),
        crawl_recursive c L W n 0 (new_session s))"
  by (auto simp: scrape_website_def Let_def normalize_url_def is_valid_url_def
           split: sum.splits if_splits)

lemma scrape_website_Inr:
  "scrape_website c L W start s = (Inr pages, s') \<Longrightarrow>
     \<exists>n. normalize_url L start = Inr (Some n) \<and> s' = crawl_recursive c L W n 0 (new_session s)
         \<and> pages = scraped_pages s'"
  by (auto simp: scrape_website_def Let_def split: sum.splits option.splits if_splits)

text \<open>
  Claim C1: in a session started by \<open>scrape_website\<close> with a page limit that is not
  negative, every value that the visited set and the result list take satisfies: every
  result's URL is in the visited set, no two results have the same URL, there are at most
  \<open>max_pages\<close> results, and every result's depth is between 0 and \<open>max_depth\<close>. The
  history starts with the empty state and ends with the final one. Every visited URL was
  added once: the URLs requested are pairwise distinct and are the visited set.
\<close>

theorem crawl_invariants:
  assumes "scrape_website c L W start s = (Inr pages, s')" and "0 \<le> max_pages c"
  shows "(\<forall>(V, R)\<in>set (history s').
            url ` set R \<subseteq> V \<and> distinct (map url R) \<and> int (length R) \<le> max_pages c
            \<and> (\<forall>p\<in>set R. 0 \<le> depth p \<and> depth p \<le> max_depth c))
         \<and> hd (history s') = ({}, []) \<and> last (history s') = (visited_urls s', scraped_pages s')
         \<and> pages = scraped_pages s'
         \<and> distinct (requests s') \<and> set (requests s') = visited_urls s'"
proof -
  from assms(1) obtain n where s': "s' = crawl_recursive c L W n 0 (new_session s)"
    and pages: "pages = scraped_pages s'" using scrape_website_Inr by blast
  have "session_ok c W s'"
    unfolding s' using crawl_session_ok(1) [of c W "new_session s" 0 L n] new_session_ok [OF assms(2)]
    by simp
  moreover obtain xs where "history s' = history (new_session s) @ xs"
    unfolding s' using crawl_history_extends(1) by blast
  then have "hd (history s') = ({}, [])" by (simp add: new_session_def)
  ultimately show ?thesis using pages
    by (fastforce simp: session_ok_def snapshot_ok_def list_all_iff)
qed


theorem crawl_invariants_witness:
  "scrape_website example_config example_lib example_web ''a.com'' fresh
     = (Inr [page_a, page_b, page_d], example_final)
   \<and> list_all (\<lambda>(V, R). url ` set R \<subseteq> V \<and> distinct (map url R) \<and> int (length R) \<le> 50
                          \<and> list_all (\<lambda>p. 0 \<le> depth p \<and> depth p \<le> 3) R)
        (history example_final)
   \<and> distinct (requests example_final) \<and> set (requests example_final) = visited_urls example_final"
proof -
  have "0 \<le> max_pages example_config" by (simp add: example_config_def)
  with crawl_invariants [OF example_run] example_run show ?thesis
    by (simp add: example_config_def list_all_iff)
qed

section \<open>Invalid seeds and failed requests\<close>

lemma scrape_website_failed:
  "normalize_url L start = Inl e \<Longrightarrow> scrape_website c L W start s = (Inl e, s)"
  "normalize_url L start = Inr None \<Longrightarrow>
     scrape_website c L W start s = (Inl (ValueError (''Invalid URL: '' @ start)), s)"
  by (simp_all add: scrape_website_def)

lemma crawl_failed_fetch:
  assumes "W (clean_url u0) = None"
  shows "scraped_pages (crawl_recursive c L W u0 d s) = scraped_pages s"
    and "d \<le> max_depth c \<Longrightarrow> \<not> max_pages c \<le> int (length (scraped_pages s)) \<Longrightarrow>
         clean_url u0 \<notin> visited_urls s \<Longrightarrow>
         crawl_recursive c L W u0 d s =
           (mark_visited (clean_url u0) s)\<lparr>requests := requests s @ [clean_url u0]\<rparr>"
  using assms
  by (auto simp: crawl_recursive.simps Let_def scrape_page_def mark_visited_def)

text \<open>
  Claim C2: when the normalization of the seed fails, by returning nothing or by raising,
  \<open>scrape_website\<close> raises a \<open>ValueError\<close> (with the message \<open>Invalid URL: ...\<close> in the first
  case) and returns the scraper as it was: nothing is visited, stored or requested. A seed
  that normalizes never gives an error: a crawl whose only request fails returns the empty
  list of pages.
\<close>

theorem invalid_seed_rejected:
  "(normalize_url L start = Inl e \<longrightarrow> scrape_website c L W start s = (Inl e, s))
   \<and> (normalize_url L start = Inr None \<longrightarrow>
        scrape_website c L W start s = (Inl (ValueError (''Invalid URL: '' @ start)), s))
   \<and> (normalize_url L start = Inr (Some n) \<longrightarrow>
        fst (scrape_website c L W start s) = Inr (scraped_pages (snd (scrape_website c L W start s))))
   \<and> (normalize_url L start = Inr (Some n) \<and> W (clean_url n) = None \<and> 0 \<le> max_depth c
        \<and> 0 < max_pages c \<longrightarrow>
        fst (scrape_website c L W start s) = Inr []
        \<and> requests (snd (scrape_website c L W start s)) = [clean_url n])"
proof -
  have "fst (scrape_website c L W start s) = Inr []
        \<and> requests (snd (scrape_website c L W start s)) = [clean_url n]"
    if n: "normalize_url L start = Inr (Some n)" and W: "W (clean_url n) = None"
      and c: "0 \<le> max_depth c" "0 < max_pages c"
  proof -
    have "crawl_recursive c L W n 0 (new_session s) =
            (mark_visited (clean_url n) (new_session s))\<lparr>requests := requests (new_session s) @ [clean_url n]\<rparr>"
      using W c by (intro crawl_failed_fetch(2)) (simp_all add: new_session_def)
    then show ?thesis
      by (simp add: scrape_website_started [OF n] new_session_def mark_visited_def)
  qed
  then show ?thesis
    using scrape_website_failed [of L start] scrape_website_started [of L start n c W s] by auto
qed

theorem invalid_seed_rejected_witness:
  "normalize_url example_lib ''not a url'' = Inr None
   \<and> scrape_website example_config example_lib example_web ''not a url'' example_final
       = (Inl (ValueError ''Invalid URL: not a url''), example_final)
   \<and> normalize_url example_lib ''a.com'' = Inr (Some ''https://a.com'')
   \<and> fst (scrape_website example_config example_lib (\<lambda>u. None) ''a.com'' example_final) = Inr []
   \<and> requests (snd (scrape_website example_config example_lib (\<lambda>u. None) ''a.com'' example_final)) = [''https://a.com'']"
proof -
  have 1: "normalize_url example_lib ''not a url'' = Inr None" by code_simp
  have 2: "normalize_url example_lib ''a.com'' = Inr (Some ''https://a.com'')" by code_simp
  have 3: "clean_url ''https://a.com'' = ''https://a.com''" by code_simp
  have 4: "0 \<le> max_depth example_config \<and> 0 < max_pages example_config" by (simp add: example_config_def)
  from invalid_seed_rejected [of example_lib "''not a url''" "ValueError []" example_config example_web example_final "[]"]
       invalid_seed_rejected [of example_lib "''a.com''" "ValueError []" example_config "\<lambda>u. None" example_final "''https://a.com''"]
       1 2 3 4
  show ?thesis by auto
qed



section \<open>Traversal order\<close>





section \<open>URL normalization\<close>

lemma strip_no_space: "list_all (\<lambda>c. \<not> is_space c) s \<Longrightarrow> strip s = s"
proof -
  assume a: "list_all (\<lambda>c. \<not> is_space c) s"
  then have 1: "dropWhile is_space s = s" by (cases s) auto
  from a have "list_all (\<lambda>c. \<not> is_space c) (rev s)" by (simp add: list_all_iff)
  then have 2: "dropWhile is_space (rev s) = rev s" by (cases "rev s") auto
  show ?thesis by (simp add: strip_def 1 2)
qed

lemma unsafe_is_space: "unsafe_url_byte c \<Longrightarrow> is_space c"
  by (auto simp: unsafe_url_byte_def is_space_def)

lemma split_scheme_http:
  "S = ''http'' \<or> S = ''https'' \<Longrightarrow> split_scheme (S @ CHR '':'' # r) = (S, r)"
  by (auto simp: split_scheme_def before_def is_ascii_alpha_def scheme_char_def lower_char_def Let_def)

lemma urlsplit_http:
  assumes "S = ''http'' \<or> S = ''https''"
  shows "urlsplit L (S @ ''://'' @ t) =
     (let t' = filter (\<lambda>c. \<not> unsafe_url_byte c) t;
          N = takeWhile (\<lambda>c. \<not> netloc_delim c) t';
          R = dropWhile (\<lambda>c. \<not> netloc_delim c) t'
      in if (CHR ''['' \<in> set N) \<noteq> (CHR '']'' \<in> set N) then Inl (ValueError ''Invalid IPv6 URL'')
         else if netloc_rejected L N then Inl (ValueError ''invalid netloc'')
         else Inr \<lparr>scheme = S, netloc = N,
                   path = before CHR ''?'' (before CHR ''#'' R), params = [],
                   query = after CHR ''?'' (before CHR ''#'' R),
                   fragment = after CHR ''#'' R\<rparr>)"
proof -
  have 1: "filter (\<lambda>c. \<not> unsafe_url_byte c) (dropWhile c0_control_or_space (S @ ''://'' @ t))
           = S @ CHR '':'' # ''//'' @ filter (\<lambda>c. \<not> unsafe_url_byte c) t"
    using assms by (auto simp: c0_control_or_space_def unsafe_url_byte_def)
  have 2: "split_scheme (S @ CHR '':'' # ''//'' @ filter (\<lambda>c. \<not> unsafe_url_byte c) t)
           = (S, ''//'' @ filter (\<lambda>c. \<not> unsafe_url_byte c) t)"
    by (rule split_scheme_http [OF assms])
  show ?thesis
    by (simp only: urlsplit_def 1 2 Let_def prod.case) (simp add: splitnetloc_def)
qed


lemma segment_split:
  "p = rev (dropWhile (\<lambda>c. c \<noteq> CHR ''/'') (rev p)) @ last_segment p"
  "take (length p - length (last_segment p)) p = rev (dropWhile (\<lambda>c. c \<noteq> CHR ''/'') (rev p))"
proof -
  show 1: "p = rev (dropWhile (\<lambda>c. c \<noteq> CHR ''/'') (rev p)) @ last_segment p"
    unfolding last_segment_def by (metis rev_append rev_rev_ident takeWhile_dropWhile_id)
  have "length (rev (dropWhile (\<lambda>c. c \<noteq> CHR ''/'') (rev p))) = length p - length (last_segment p)"
    using arg_cong [OF 1, of length] by simp
  then show "take (length p - length (last_segment p)) p = rev (dropWhile (\<lambda>c. c \<noteq> CHR ''/'') (rev p))"
    using 1 by (metis append_eq_conv_conj)
qed

lemma last_segment_append:
  assumes "h = [] \<or> last h = CHR ''/''" "CHR ''/'' \<notin> set b"
  shows "last_segment (h @ b) = b"
proof -
  have "takeWhile (\<lambda>c. c \<noteq> CHR ''/'') (rev b @ rev h) = rev b"
  proof (cases "h = []")
    case True
    with assms(2) show ?thesis by (auto simp: takeWhile_eq_all_conv)
  next
    case False
    with assms(1) have "hd (rev h) = CHR ''/''" by (simp add: hd_rev)
    with False have "takeWhile (\<lambda>c. c \<noteq> CHR ''/'') (rev h) = []" by (cases "rev h") auto
    with assms(2) show ?thesis by (simp add: takeWhile_append)
  qed
  then show ?thesis by (simp add: last_segment_def)
qed

lemma head_ends_with_slash:
  "rev (dropWhile (\<lambda>c. c \<noteq> CHR ''/'') (rev p)) = [] \<or>
   last (rev (dropWhile (\<lambda>c. c \<noteq> CHR ''/'') (rev p))) = CHR ''/''"
proof (cases "dropWhile (\<lambda>c. c \<noteq> CHR ''/'') (rev p) = []")
  case True then show ?thesis by simp
next
  case False
  then have "hd (dropWhile (\<lambda>c. c \<noteq> CHR ''/'') (rev p)) = CHR ''/''"
    using hd_dropWhile [of "\<lambda>c. c \<noteq> CHR ''/''" "rev p"] by simp
  with False show ?thesis by (simp add: last_rev)
qed

lemma splitparams_segment: "CHR '';'' \<notin> set (last_segment (fst (splitparams p)))"
proof (cases "CHR '';'' \<in> set (last_segment p)")
  case False
  then show ?thesis by (simp add: splitparams_def)
next
  case True
  let ?h = "rev (dropWhile (\<lambda>c. c \<noteq> CHR ''/'') (rev p))"
  let ?b = "before CHR '';'' (last_segment p)"
  have slash: "CHR ''/'' \<notin> set (last_segment p)"
    by (auto simp: last_segment_def dest: set_takeWhileD)
  then have "CHR ''/'' \<notin> set ?b" by (auto simp: before_def dest: set_takeWhileD)
  then have "last_segment (?h @ ?b) = ?b"
    using head_ends_with_slash [of p] by (intro last_segment_append) auto
  moreover have "CHR '';'' \<notin> set ?b" by (auto simp: before_def dest: set_takeWhileD)
  ultimately show ?thesis using True by (simp add: splitparams_def Let_def segment_split(2))
qed

lemma splitparams_prefix: "\<exists>z. p = fst (splitparams p) @ z"
proof (cases "CHR '';'' \<in> set (last_segment p)")
  case False
  then show ?thesis by (simp add: splitparams_def)
next
  case True
  have "last_segment p = before CHR '';'' (last_segment p) @ dropWhile (\<lambda>c. c \<noteq> CHR '';'') (last_segment p)"
    by (simp add: before_def)
  then have "p = (rev (dropWhile (\<lambda>c. c \<noteq> CHR ''/'') (rev p)) @ before CHR '';'' (last_segment p))
                 @ dropWhile (\<lambda>c. c \<noteq> CHR '';'') (last_segment p)"
    using segment_split(1) [of p] by simp
  with True show ?thesis by (auto simp: splitparams_def Let_def segment_split(2))
qed

lemma splitparams_hd:
  "p \<noteq> [] \<Longrightarrow> hd p = CHR ''/'' \<Longrightarrow> fst (splitparams p) \<noteq> [] \<and> hd (fst (splitparams p)) = CHR ''/''"
proof (cases "CHR '';'' \<in> set (last_segment p)")
  case False
  assume "p \<noteq> []" "hd p = CHR ''/''"
  with False show ?thesis by (simp add: splitparams_def)
next
  case True
  assume p: "p \<noteq> []" "hd p = CHR ''/''"
  let ?h = "rev (dropWhile (\<lambda>c. c \<noteq> CHR ''/'') (rev p))"
  from p have "CHR ''/'' \<in> set (rev p)" by (cases p) auto
  then have "dropWhile (\<lambda>c. c \<noteq> CHR ''/'') (rev p) \<noteq> []" by (simp add: dropWhile_eq_Nil_conv)
  then have h: "?h \<noteq> []" by simp
  have "p = ?h @ last_segment p" by (rule segment_split(1))
  with h have "hd p = hd ?h" by (metis hd_append2)
  with h p True show ?thesis by (simp add: splitparams_def Let_def segment_split(2))
qed


lemma uses_params_http: "S = ''http'' \<or> S = ''https'' \<Longrightarrow> S \<in> set uses_params"
  by (auto simp: uses_params_def)

lemma set_before: "set (before d s) \<subseteq> set s" "d \<notin> set (before d s)"
  by (auto simp: before_def dest: set_takeWhileD)

lemma set_after: "set (after d s) \<subseteq> set s"
  by (auto simp: after_def dest: in_set_dropD set_dropWhileD)

lemma last_segment_subset: "set (last_segment p) \<subseteq> set p"
  by (auto simp: last_segment_def dest: set_takeWhileD)

lemma path_start:
  assumes "R = [] \<or> netloc_delim (hd R)"
  shows "before CHR ''?'' (before CHR ''#'' R) = [] \<or> hd (before CHR ''?'' (before CHR ''#'' R)) = CHR ''/''"
  using assms by (cases R) (auto simp: before_def netloc_delim_def)

lemma urlparse_http_components:
  assumes S: "S = ''http'' \<or> S = ''https''" and p: "urlparse L (S @ ''://'' @ t) = Inr p"
  shows "scheme p = S"
    and "list_all (\<lambda>c. \<not> netloc_delim c) (netloc p)"
    and "path p = [] \<or> hd (path p) = CHR ''/''"
    and "CHR ''?'' \<notin> set (path p)" and "CHR ''#'' \<notin> set (path p)" and "CHR ''#'' \<notin> set (query p)"
    and "CHR '';'' \<notin> set (last_segment (path p))"
    and "list_all (\<lambda>c. \<not> unsafe_url_byte c) (netloc p @ path p @ query p)"
    and "(CHR ''['' \<in> set (netloc p)) = (CHR '']'' \<in> set (netloc p))"
    and "\<not> netloc_rejected L (netloc p)"
proof -
  define t' where "t' = filter (\<lambda>c. \<not> unsafe_url_byte c) t"
  define N where "N = takeWhile (\<lambda>c. \<not> netloc_delim c) t'"
  define R where "R = dropWhile (\<lambda>c. \<not> netloc_delim c) t'"
  define p0 where "p0 = before CHR ''?'' (before CHR ''#'' R)"
  define q where "q = after CHR ''?'' (before CHR ''#'' R)"
  have split: "urlsplit L (S @ ''://'' @ t) =
      (if (CHR ''['' \<in> set N) \<noteq> (CHR '']'' \<in> set N) then Inl (ValueError ''Invalid IPv6 URL'')
       else if netloc_rejected L N then Inl (ValueError ''invalid netloc'')
       else Inr \<lparr>scheme = S, netloc = N, path = p0, params = [], query = q, fragment = after CHR ''#'' R\<rparr>)"
    unfolding urlsplit_http [OF S] t'_def N_def R_def p0_def q_def Let_def by simp
  from p split have ok: "(CHR ''['' \<in> set N) = (CHR '']'' \<in> set N)" "\<not> netloc_rejected L N"
    by (auto simp: urlparse_def split: if_splits)
  with p split uses_params_http [OF S]
  have comp: "scheme p = S" "netloc p = N" "query p = q"
        "path p = (if CHR '';'' \<in> set p0 then fst (splitparams p0) else p0)"
    by (auto simp: urlparse_def split: if_splits)
  show "scheme p = S" by (rule comp)
  show "list_all (\<lambda>c. \<not> netloc_delim c) (netloc p)"
    unfolding comp N_def by (auto simp: list_all_iff dest: set_takeWhileD)
  have R: "R = [] \<or> netloc_delim (hd R)"
    unfolding R_def using hd_dropWhile [of "\<lambda>c. \<not> netloc_delim c" t'] by auto
  then have p0: "p0 = [] \<or> hd p0 = CHR ''/''" unfolding p0_def by (rule path_start)
  show "path p = [] \<or> hd (path p) = CHR ''/''"
  proof (cases "CHR '';'' \<in> set p0")
    case True
    then have "p0 \<noteq> []" by auto
    with p0 have "fst (splitparams p0) \<noteq> [] \<and> hd (fst (splitparams p0)) = CHR ''/''"
      using splitparams_hd [of p0] by blast
    with True show ?thesis by (simp add: comp)
  next
    case False
    with p0 show ?thesis by (simp add: comp)
  qed
  obtain z where z: "p0 = fst (splitparams p0) @ z" using splitparams_prefix by blast
  then have sub: "set (path p) \<subseteq> set p0"
    unfolding comp by (metis Un_upper1 set_append subset_refl)
  have p0sub: "set p0 \<subseteq> set (before CHR ''#'' R)" "CHR ''?'' \<notin> set p0"
    unfolding p0_def using set_before by auto
  have hash: "CHR ''#'' \<notin> set (before CHR ''#'' R)" "set (before CHR ''#'' R) \<subseteq> set R"
    using set_before by auto
  from sub p0sub show "CHR ''?'' \<notin> set (path p)" by auto
  from sub p0sub hash show "CHR ''#'' \<notin> set (path p)" by auto
  from hash show "CHR ''#'' \<notin> set (query p)" unfolding comp q_def using set_after by fastforce
  show "CHR '';'' \<notin> set (last_segment (path p))"
    unfolding comp using splitparams_segment [of p0] last_segment_subset [of p0] by auto
  have "set R \<subseteq> set t'" unfolding R_def by (auto dest: set_dropWhileD)
  moreover have "set N \<subseteq> set t'" unfolding N_def by (auto dest: set_takeWhileD)
  moreover have "set q \<subseteq> set R" unfolding q_def using set_after hash by fastforce
  moreover have "\<forall>c\<in>set t'. \<not> unsafe_url_byte c" unfolding t'_def by simp
  moreover have "set (path p) \<subseteq> set R" using sub p0sub hash by blast
  ultimately have "set (netloc p @ path p @ query p) \<subseteq> set t'" "\<forall>c\<in>set t'. \<not> unsafe_url_byte c"
    unfolding comp(2,3) by auto
  then show "list_all (\<lambda>c. \<not> unsafe_url_byte c) (netloc p @ path p @ query p)"
    unfolding list_all_iff by blast
  from ok show "(CHR ''['' \<in> set (netloc p)) = (CHR '']'' \<in> set (netloc p))" by (simp add: comp)
  from ok show "\<not> netloc_rejected L (netloc p)" by (simp add: comp)
qed

lemma urlparse_canonical:
  assumes S: "S = ''http'' \<or> S = ''https''"
    and N: "list_all (\<lambda>c. \<not> netloc_delim c) N"
    and P: "P = [] \<or> hd P = CHR ''/''" "CHR ''?'' \<notin> set P" "CHR ''#'' \<notin> set P"
           "CHR '';'' \<notin> set (last_segment P)"
    and Q: "CHR ''#'' \<notin> set Q"
    and safe: "list_all (\<lambda>c. \<not> unsafe_url_byte c) (N @ P @ Q)"
    and ok: "(CHR ''['' \<in> set N) = (CHR '']'' \<in> set N)" "\<not> netloc_rejected L N"
  shows "urlparse L (S @ ''://'' @ N @ P @ (if Q \<noteq> [] then ''?'' @ Q else []))
         = Inr \<lparr>scheme = S, netloc = N, path = P, params = [], query = Q, fragment = []\<rparr>"
proof -
  let ?rest = "P @ (if Q \<noteq> [] then ''?'' @ Q else [])"
  have f: "filter (\<lambda>c. \<not> unsafe_url_byte c) (N @ ?rest) = N @ ?rest"
    using safe by (auto simp: list_all_iff unsafe_url_byte_def filter_id_conv)
  have rest: "?rest = [] \<or> netloc_delim (hd ?rest)"
    using P(1) by (cases P) (auto simp: netloc_delim_def)
  have tw: "takeWhile (\<lambda>c. \<not> netloc_delim c) (N @ ?rest) = N"
    using N rest by (cases ?rest) (auto simp: takeWhile_append list_all_iff takeWhile_eq_all_conv)
  have dw: "dropWhile (\<lambda>c. \<not> netloc_delim c) (N @ ?rest) = ?rest"
    using N rest by (cases ?rest) (auto simp: dropWhile_append list_all_iff)
  have b1: "before CHR ''#'' ?rest = ?rest"
    using P Q by (auto simp: before_def takeWhile_eq_all_conv)
  have b2: "before CHR ''?'' ?rest = P"
    using P by (auto simp: before_def takeWhile_append takeWhile_eq_all_conv)
  have a2: "after CHR ''?'' ?rest = Q"
    using P by (auto simp: after_def dropWhile_append dropWhile_eq_Nil_conv)
  have "dropWhile (\<lambda>c. c \<noteq> CHR ''#'') ?rest = []"
    using P Q by (auto simp: dropWhile_eq_Nil_conv)
  then have a1: "after CHR ''#'' ?rest = []" by (simp only: after_def drop_Nil)
  have split: "urlsplit L (S @ ''://'' @ N @ ?rest)
        = Inr \<lparr>scheme = S, netloc = N, path = P, params = [], query = Q, fragment = []\<rparr>"
    unfolding urlsplit_http [OF S] f Let_def tw dw b1 b2 a2 a1 using ok by simp
  have "splitparams P = (P, [])" using P(4) by (simp add: splitparams_def)
  with split show ?thesis by (simp add: urlparse_def)
qed


lemma is_valid_url_True:
  "is_valid_url L x = Inr True \<Longrightarrow>
     x \<noteq> [] \<and> validators_url L x
     \<and> (\<exists>p. urlparse L x = Inr p \<and> (scheme p = ''http'' \<or> scheme p = ''https'') \<and> netloc p \<noteq> [])"
  by (auto simp: is_valid_url_def split: if_splits sum.splits)

lemma startswith_append: "startswith s p \<Longrightarrow> s = p @ drop (length p) s"
  unfolding startswith_def by (metis append_take_drop_id)

lemma normalized_form:
  "(if q \<noteq> [] then (s @ ''://'' @ n @ p) @ ''?'' @ q else s @ ''://'' @ n @ p)
     = s @ ''://'' @ n @ p @ (if q \<noteq> [] then ''?'' @ q else [])"
  by simp

lemma normalize_url_unfold:
  "u \<noteq> [] \<Longrightarrow> normalize_url L u =
     (case urlparse L (if startswith (strip u) ''http://'' \<or> startswith (strip u) ''https://''
                       then strip u else ''https://'' @ strip u) of
        Inl e \<Rightarrow> Inl e
      | Inr p \<Rightarrow>
          (case is_valid_url L (scheme p @ ''://'' @ netloc p @ path p
                                 @ (if query p \<noteq> [] then ''?'' @ query p else [])) of
             Inl e \<Rightarrow> Inl e
           | Inr ok \<Rightarrow> if ok then Inr (Some (scheme p @ ''://'' @ netloc p @ path p
                                 @ (if query p \<noteq> [] then ''?'' @ query p else []))) else Inr None))"
  unfolding normalize_url_def Let_def normalized_form by simp

lemma normalize_url_Some:
  assumes "normalize_url L u = Inr (Some r)"
  shows "\<exists>S t p. (S = ''http'' \<or> S = ''https'') \<and> urlparse L (S @ ''://'' @ t) = Inr p
           \<and> r = scheme p @ ''://'' @ netloc p @ path p @ (if query p \<noteq> [] then ''?'' @ query p else [])
           \<and> is_valid_url L r = Inr True"
proof -
  define url1 where "url1 = strip u"
  define url2 where "url2 = (if startswith url1 ''http://'' \<or> startswith url1 ''https://''
                    then url1 else ''https://'' @ url1)"
  have "\<exists>S t. (S = ''http'' \<or> S = ''https'') \<and> url2 = S @ ''://'' @ t"
  proof (cases "startswith url1 ''http://''")
    case True
    then have "url1 = ''http://'' @ drop (length ''http://'') url1" by (rule startswith_append)
    then have "url1 = ''http'' @ ''://'' @ drop (length ''http://'') url1" by simp
    moreover from True have "url2 = url1" by (simp add: url2_def)
    ultimately have "url2 = ''http'' @ ''://'' @ drop (length ''http://'') url1" by simp
    then show ?thesis by blast
  next
    case h: False
    show ?thesis
    proof (cases "startswith url1 ''https://''")
      case True
      then have "url1 = ''https://'' @ drop (length ''https://'') url1" by (rule startswith_append)
      then have "url1 = ''https'' @ ''://'' @ drop (length ''https://'') url1" by simp
      moreover from True have "url2 = url1" by (simp add: url2_def)
      ultimately have "url2 = ''https'' @ ''://'' @ drop (length ''https://'') url1" by simp
      then show ?thesis by blast
    next
      case False
      with h have "url2 = ''https'' @ ''://'' @ url1" by (simp add: url2_def)
      then show ?thesis by blast
    qed
  qed
  then obtain S t where S: "S = ''http'' \<or> S = ''https''" and u2: "url2 = S @ ''://'' @ t" by blast
  from assms have ne: "u \<noteq> []" by (auto simp: normalize_url_def)
  note n = assms [unfolded normalize_url_unfold [OF ne], folded url1_def, folded url2_def]
  then obtain p where p: "urlparse L url2 = Inr p" by (cases "urlparse L url2") auto
  let ?n = "scheme p @ ''://'' @ netloc p @ path p @ (if query p \<noteq> [] then ''?'' @ query p else [])"
  from n p have "(case is_valid_url L ?n of
                     Inl e \<Rightarrow> Inl e
                   | Inr ok \<Rightarrow> if ok then Inr (Some ?n) else Inr None) = Inr (Some r)"
    by simp
  then have "is_valid_url L ?n = Inr True \<and> r = ?n"
    by (cases "is_valid_url L ?n") (auto split: if_splits)
  with S p show ?thesis unfolding u2 by blast
qed

lemma normalize_url_result:
  assumes "u \<noteq> []" and "strip u = v" and "startswith v ''http://'' \<or> startswith v ''https://''"
    and "urlparse L v = Inr p"
    and "scheme p @ ''://'' @ netloc p @ path p @ (if query p \<noteq> [] then ''?'' @ query p else []) = n"
    and "is_valid_url L n = Inr True"
  shows "normalize_url L u = Inr (Some n)"
  unfolding normalize_url_unfold [OF assms(1)] using assms(2-) by auto

text \<open>
  Claim C9: for a validator that accepts no whitespace, a result of \<open>normalize_url\<close> is
  normalized to itself.
\<close>

theorem normalize_url_fixed_point:
  assumes "rejects_whitespace L" and "normalize_url L u = Inr (Some r)"
  shows "normalize_url L r = Inr (Some r)"
proof -
  from normalize_url_Some [OF assms(2)] obtain S t p where S: "S = ''http'' \<or> S = ''https''"
    and p: "urlparse L (S @ ''://'' @ t) = Inr p"
    and r: "r = scheme p @ ''://'' @ netloc p @ path p @ (if query p \<noteq> [] then ''?'' @ query p else [])"
    and v: "is_valid_url L r = Inr True"
    by (elim exE conjE)
  note c = urlparse_http_components [OF S p]
  define tail where "tail = netloc p @ path p @ (if query p \<noteq> [] then ''?'' @ query p else [])"
  have r': "r = S @ ''://'' @ tail" using r c(1) by (simp add: tail_def)
  have parse: "urlparse L r = Inr \<lparr>scheme = S, netloc = netloc p, path = path p, params = [],
                                   query = query p, fragment = []\<rparr>"
    unfolding r' tail_def
    by (rule urlparse_canonical [OF S c(2) c(3) c(4) c(5) c(7) c(6) c(8) c(9) c(10)])
  from is_valid_url_True [OF v] have val: "validators_url L r" and ne: "r \<noteq> []" by simp_all
  from assms(1) val have "list_all (\<lambda>c. \<not> is_space c) r" by (simp add: rejects_whitespace_def)
  then have strip: "strip r = r" by (rule strip_no_space)
  have start: "startswith r ''http://'' \<or> startswith r ''https://''"
    using S unfolding r' by (auto simp: startswith_def)
  have n: "scheme \<lparr>scheme = S, netloc = netloc p, path = path p, params = [], query = query p, fragment = []\<rparr>
           @ ''://'' @ netloc \<lparr>scheme = S, netloc = netloc p, path = path p, params = [], query = query p, fragment = []\<rparr>
           @ path \<lparr>scheme = S, netloc = netloc p, path = path p, params = [], query = query p, fragment = []\<rparr>
           @ (if query \<lparr>scheme = S, netloc = netloc p, path = path p, params = [], query = query p, fragment = []\<rparr> \<noteq> []
              then ''?'' @ query \<lparr>scheme = S, netloc = netloc p, path = path p, params = [], query = query p, fragment = []\<rparr>
              else []) = r"
    unfolding r' tail_def by simp
  show ?thesis by (rule normalize_url_result [OF ne strip start parse n v])
qed

theorem normalize_url_fixed_point_witness:
  "normalize_url example_lib '' example.com/a/;x?q=1#top '' = Inr (Some ''https://example.com/a/?q=1'')
   \<and> normalize_url example_lib ''https://example.com/a/?q=1'' = Inr (Some ''https://example.com/a/?q=1'')
   \<and> normalize_url example_lib ''example.com'' = Inr (Some ''https://example.com'')"
proof -
  have 1: "rejects_whitespace example_lib" by (simp add: rejects_whitespace_def example_lib_def)
  have 2: "normalize_url example_lib '' example.com/a/;x?q=1#top '' = Inr (Some ''https://example.com/a/?q=1'')"
    by code_simp
  have 3: "normalize_url example_lib ''example.com'' = Inr (Some ''https://example.com'')"
    by code_simp
  from normalize_url_fixed_point [OF 1 2] 2 3 show ?thesis by simp
qed

section \<open>Hosts of the crawled URLs\<close>

lemma urlsplit_Inr:
  "urlsplit L x = Inr q \<Longrightarrow>
     scheme q = fst (split_scheme (filter (\<lambda>c. \<not> unsafe_url_byte c) (dropWhile c0_control_or_space x)))
     \<and> netloc q = fst (splitnetloc (snd (split_scheme (filter (\<lambda>c. \<not> unsafe_url_byte c) (dropWhile c0_control_or_space x)))))
     \<and> (CHR ''['' \<in> set (netloc q)) = (CHR '']'' \<in> set (netloc q)) \<and> \<not> netloc_rejected L (netloc q)"
  by (auto simp: urlsplit_def Let_def split: prod.splits if_splits)

lemma urlsplit_ok:
  assumes "N = fst (splitnetloc (snd (split_scheme (filter (\<lambda>c. \<not> unsafe_url_byte c) (dropWhile c0_control_or_space x)))))"
    and "(CHR ''['' \<in> set N) = (CHR '']'' \<in> set N)" and "\<not> netloc_rejected L N"
  shows "\<exists>q. urlsplit L x = Inr q
             \<and> scheme q = fst (split_scheme (filter (\<lambda>c. \<not> unsafe_url_byte c) (dropWhile c0_control_or_space x)))
             \<and> netloc q = N"
  using assms by (auto simp: urlsplit_def Let_def split: prod.splits)

lemma urlparse_urlsplit:
  "urlparse L x = Inr p \<Longrightarrow> \<exists>q. urlsplit L x = Inr q \<and> scheme q = scheme p \<and> netloc q = netloc p"
  by (auto simp: urlparse_def split: sum.splits if_splits)

lemma urlsplit_urlparse:
  "urlsplit L x = Inr q \<Longrightarrow> \<exists>p. urlparse L x = Inr p \<and> scheme p = scheme q \<and> netloc p = netloc q"
  by (auto simp: urlparse_def)

lemma prepare_drop_slash:
  assumes "\<not> list_all c0_control_or_space P"
  shows "filter (\<lambda>c. \<not> unsafe_url_byte c) (dropWhile c0_control_or_space (P @ ''/''))
         = filter (\<lambda>c. \<not> unsafe_url_byte c) (dropWhile c0_control_or_space P) @ ''/''"
proof -
  from assms have "dropWhile c0_control_or_space (P @ ''/'') = dropWhile c0_control_or_space P @ ''/''"
    by (auto simp: dropWhile_append list_all_iff)
  then show ?thesis by (simp add: unsafe_url_byte_def)
qed

lemma prepare_all_c0:
  assumes "list_all c0_control_or_space P"
  shows "filter (\<lambda>c. \<not> unsafe_url_byte c) (dropWhile c0_control_or_space (P @ ''/'')) = ''/''"
proof -
  from assms have "dropWhile c0_control_or_space (P @ ''/'') = ''/''"
    by (auto simp: dropWhile_append list_all_iff c0_control_or_space_def)
  then show ?thesis by (simp add: unsafe_url_byte_def)
qed

lemma takeWhile_shorter: "x \<in> set y \<Longrightarrow> \<not> P x \<Longrightarrow> length (takeWhile P y) < length y"
  by (induction y) auto

lemma split_scheme_drop_slash:
  assumes "fst (split_scheme (y @ ''/'')) \<noteq> []"
  shows "fst (split_scheme y) = fst (split_scheme (y @ ''/''))
         \<and> snd (split_scheme (y @ ''/'')) = snd (split_scheme y) @ ''/''"
proof -
  let ?pre = "before CHR '':'' (y @ ''/'')"
  from assms have c: "CHR '':'' \<in> set (y @ ''/'')" "?pre \<noteq> []" "is_ascii_alpha (hd (y @ ''/''))"
      "list_all scheme_char ?pre"
    by (auto simp: split_scheme_def Let_def split: if_splits)
  from c(1) have in_y: "CHR '':'' \<in> set y" by simp
  then have pre: "?pre = before CHR '':'' y" by (auto simp: before_def takeWhile_append)
  from in_y have ne: "y \<noteq> []" by auto
  then have hd: "hd (y @ ''/'') = hd y" by simp
  have "length (before CHR '':'' y) < length y"
    using in_y unfolding before_def by (rule takeWhile_shorter) simp
  then have drop: "drop (length (before CHR '':'' y) + 1) (y @ ''/'') = drop (length (before CHR '':'' y) + 1) y @ ''/''"
    by simp
  from c in_y pre hd drop show ?thesis by (simp add: split_scheme_def Let_def)
qed

lemma splitnetloc_drop_slash:
  assumes "fst (splitnetloc (r @ ''/'')) \<noteq> []"
  shows "fst (splitnetloc r) = fst (splitnetloc (r @ ''/''))"
proof -
  from assms have t: "take 2 (r @ ''/'') = ''//''" by (auto simp: splitnetloc_def split: if_splits)
  have len: "2 \<le> length r"
  proof (rule ccontr)
    assume "\<not> 2 \<le> length r"
    then have "length r = 0 \<or> length r = 1" by arith
    then have "drop 2 (r @ ''/'') = []" by auto
    with assms t show False by (simp add: splitnetloc_def)
  qed
  then have t2: "take 2 r = ''//''" using t by simp
  from len have d: "drop 2 (r @ ''/'') = drop 2 r @ ''/''" by simp
  have tw: "takeWhile (\<lambda>c. \<not> netloc_delim c) (z @ ''/'') = takeWhile (\<lambda>c. \<not> netloc_delim c) z" for z
    by (induction z) (auto simp: netloc_delim_def)
  show ?thesis by (simp add: splitnetloc_def t t2 d tw del: take_append drop_append)
qed

lemma urlparse_drop_slash:
  assumes "urlparse L (P @ ''/'') = Inr p" and "scheme p \<noteq> []" and "netloc p \<noteq> []"
  shows "\<exists>p'. urlparse L P = Inr p' \<and> scheme p' = scheme p \<and> netloc p' = netloc p"
proof -
  let ?prep = "\<lambda>x. filter (\<lambda>c. \<not> unsafe_url_byte c) (dropWhile c0_control_or_space x)"
  from urlparse_urlsplit [OF assms(1)]
  obtain q where q: "urlsplit L (P @ ''/'') = Inr q" "scheme q = scheme p" "netloc q = netloc p"
    by (elim exE conjE)
  note s = urlsplit_Inr [OF q(1)]
  have notc0: "\<not> list_all c0_control_or_space P"
  proof
    assume "list_all c0_control_or_space P"
    then have "?prep (P @ ''/'') = ''/''" by (rule prepare_all_c0)
    with s have "scheme q = []" by (simp add: split_scheme_def before_def)
    with q assms(2) show False by simp
  qed
  then have prep: "?prep (P @ ''/'') = ?prep P @ ''/''" by (rule prepare_drop_slash)
  from s q assms(2) have "fst (split_scheme (?prep P @ ''/'')) \<noteq> []" by (simp add: prep)
  from split_scheme_drop_slash [OF this]
  have sch: "fst (split_scheme (?prep P)) = fst (split_scheme (?prep P @ ''/''))"
    and rest: "snd (split_scheme (?prep P @ ''/'')) = snd (split_scheme (?prep P)) @ ''/''"
    by simp_all
  from s q assms(3) have "fst (splitnetloc (snd (split_scheme (?prep P)) @ ''/'')) \<noteq> []"
    by (simp add: prep rest)
  then have loc: "fst (splitnetloc (snd (split_scheme (?prep P)))) = fst (splitnetloc (snd (split_scheme (?prep P)) @ ''/''))"
    by (rule splitnetloc_drop_slash)
  have N: "netloc q = fst (splitnetloc (snd (split_scheme (?prep P))))"
    using s by (simp add: prep rest loc)
  note s' = s [THEN conjunct2, THEN conjunct2]
  from urlsplit_ok [OF N s' [THEN conjunct1] s' [THEN conjunct2]] obtain q' where q': "urlsplit L P = Inr q'"
      "scheme q' = fst (split_scheme (?prep P))" "netloc q' = netloc q"
    by (elim exE conjE)
  from s have "scheme q = fst (split_scheme (?prep P))" by (simp add: prep sch)
  with q' q have "scheme q' = scheme p" "netloc q' = netloc p" by simp_all
  with urlsplit_urlparse [OF q'(1)] show ?thesis by auto
qed


lemma http_host_iff:
  "http_host L h u \<longleftrightarrow>
     (\<exists>p. urlparse L u = Inr p \<and> (scheme p = ''http'' \<or> scheme p = ''https'') \<and> netloc p = h \<and> h \<noteq> [])"
  by (auto simp: http_host_def split: sum.splits)

lemma http_host_domain: "http_host L h u \<Longrightarrow> get_domain L u = Some h"
  by (auto simp: http_host_iff get_domain_def)

lemma valid_http_host:
  "is_valid_url L x = Inr True \<Longrightarrow> \<exists>p. urlparse L x = Inr p \<and> http_host L (netloc p) x"
  using is_valid_url_True [of L x] by (auto simp: http_host_iff)

lemma endswith_slash: "endswith x ''/'' \<Longrightarrow> x = butlast x @ ''/''"
proof -
  assume e: "endswith x ''/''"
  then have ne: "x \<noteq> []" by (auto simp: endswith_def)
  then have x: "x = butlast x @ [last x]" by simp
  have "drop (length x - 1) (butlast x @ [last x]) = [last x]" by simp
  with x have "drop (length x - 1) x = [last x]" by simp
  with e have "last x = CHR ''/''" by (simp add: endswith_def)
  with x show ?thesis by simp
qed

lemma clean_url_host:
  assumes "rejects_whitespace L" and "is_valid_url L x = Inr True" and "http_host L h x"
  shows "http_host L h (clean_url x)"
proof -
  from is_valid_url_True [OF assms(2)] have "validators_url L x" by simp
  with assms(1) have "list_all (\<lambda>c. \<not> is_space c) x" by (simp add: rejects_whitespace_def)
  then have strip: "strip x = x" by (rule strip_no_space)
  show ?thesis
  proof (cases "endswith x ''/'' \<and> count_list x CHR ''/'' > 3")
    case False
    with assms(3) strip show ?thesis by (auto simp: clean_url_def)
  next
    case True
    then have x: "x = butlast x @ ''/''" using endswith_slash by blast
    from assms(3) obtain p where p: "urlparse L x = Inr p" "scheme p = ''http'' \<or> scheme p = ''https''"
        "netloc p = h" "h \<noteq> []"
      unfolding http_host_iff by (elim exE conjE)
    from p(1) x have a: "urlparse L (butlast x @ ''/'') = Inr p" by simp
    from p have b: "scheme p \<noteq> []" and c: "netloc p \<noteq> []" by auto
    from urlparse_drop_slash [OF a b c]
    obtain p' where "urlparse L (butlast x) = Inr p'" "scheme p' = scheme p" "netloc p' = netloc p"
      by (elim exE conjE)
    with p have "http_host L h (butlast x)" unfolding http_host_iff by auto
    with True strip show ?thesis by (simp add: clean_url_def)
  qed
qed

lemma same_domain_host:
  assumes "http_host L h u" and "is_same_domain L u l" and "is_valid_url L l = Inr True"
  shows "http_host L h l"
proof -
  from assms(1) have "get_domain L u = Some h" by (rule http_host_domain)
  with assms(2) have "get_domain L l = Some h"
    by (auto simp: is_same_domain_def split: option.splits if_splits)
  moreover from valid_http_host [OF assms(3)] obtain p where "urlparse L l = Inr p" "http_host L (netloc p) l"
    by (elim exE conjE)
  ultimately show ?thesis by (auto simp: get_domain_def split: if_splits)
qed

lemma extract_links_valid: "list_all (\<lambda>l. is_valid_url L l = Inr True) (extract_links L soup b)"
proof -
  have "set (spec_links L soup b)
       \<subseteq> {a. \<exists>href. make_absolute_url L b href = Some a}"
    by (force simp: spec_links_def set_first_occurrences List.map_filter_def)
  then show ?thesis
    unfolding extract_links_spec list_all_iff using make_absolute_url_valid by blast
qed

lemma scrape_page_links:
  "scrape_page L W u d s = (Some page, s') \<Longrightarrow> list_all (\<lambda>l. is_valid_url L l = Inr True) (links page)"
  using extract_links_valid
  by (auto simp: scrape_page_def Let_def split: option.splits prod.splits)

lemma hosts_ok_marked:
  assumes "hosts_ok L h s" "http_host L h u"
  shows "hosts_ok L h ((mark_visited u s)\<lparr>requests := requests (mark_visited u s) @ [u]\<rparr>)"
  using assms by (auto simp: hosts_ok_def snapshot_on_host_def mark_visited_def)

lemma hosts_ok_appended:
  assumes "hosts_ok L h s" "http_host L h u" "url p = u"
  shows "hosts_ok L h (append_page p ((mark_visited u s)\<lparr>requests := requests (mark_visited u s) @ [u]\<rparr>))"
  using assms by (auto simp: hosts_ok_def snapshot_on_host_def mark_visited_def append_page_def)

lemma crawl_hosts_ok:
  "rejects_whitespace L \<longrightarrow> is_valid_url L u0 = Inr True \<longrightarrow> http_host L h u0 \<longrightarrow> hosts_ok L h s
     \<longrightarrow> hosts_ok L h (crawl_recursive c L W u0 d s)"
  "rejects_whitespace L \<longrightarrow> http_host L h u \<longrightarrow> list_all (\<lambda>l. is_valid_url L l = Inr True) ls
     \<longrightarrow> hosts_ok L h s \<longrightarrow> hosts_ok L h (follow_links c L W u d ls s)"
proof (induction c L W u0 d s and c L W u d ls s rule: crawl_recursive_follow_links.induct)
  case (1 c L W u0 d s)
  show ?case
  proof (intro impI)
    assume H: "rejects_whitespace L" and valid: "is_valid_url L u0 = Inr True"
      and host: "http_host L h u0" and ok: "hosts_ok L h s"
    let ?u = "clean_url u0"
    from H valid host have hu: "http_host L h ?u" by (rule clean_url_host)
    show "hosts_ok L h (crawl_recursive c L W u0 d s)"
    proof (cases "max_depth c < d \<or> max_pages c \<le> int (length (scraped_pages s)) \<or> ?u \<in> visited_urls s")
      case True
      with ok show ?thesis by (auto simp: crawl_recursive.simps Let_def)
    next
      case False
      obtain r s' where sp: "scrape_page L W ?u d (mark_visited ?u s) = (r, s')" by fastforce
      note res = scrape_page_result [OF sp]
      show ?thesis
      proof (cases r)
        case None
        with False sp res ok hu show ?thesis
          using hosts_ok_marked [of L h s ?u] by (simp add: crawl_recursive.simps Let_def)
      next
        case (Some page)
        with res have pg: "url page = ?u" by auto
        from sp Some have lv: "list_all (\<lambda>l. is_valid_url L l = Inr True) (links page)"
          using scrape_page_links by blast
        have "hosts_ok L h (append_page page s')"
          using hosts_ok_appended [of L h s ?u page] ok hu pg res by simp
        with "1.IH" [of ?u r s' page] False sp Some H hu lv
        have "hosts_ok L h (follow_links c L W ?u d (links page) (append_page page s'))" by simp
        with False sp Some show ?thesis by (simp add: crawl_recursive.simps Let_def)
      qed
    qed
  qed
next
  case (2 c L W u d s)
  show ?case by simp
next
  case (3 c L W u d link rest s)
  show ?case
  proof (intro impI)
    assume H: "rejects_whitespace L" and hu: "http_host L h u"
      and lv: "list_all (\<lambda>l. is_valid_url L l = Inr True) (link # rest)" and ok: "hosts_ok L h s"
    show "hosts_ok L h (follow_links c L W u d (link # rest) s)"
    proof (cases "max_pages c \<le> int (length (scraped_pages s))")
      case True
      with ok show ?thesis by simp
    next
      case budget: False
      show ?thesis
      proof (cases "is_same_domain L u link")
        case False
        with "3.IH"(3) budget H hu lv ok show ?thesis by simp
      next
        case same: True
        show ?thesis
        proof (cases "delay c < 0")
          case True
          with ok budget same show ?thesis by simp
        next
          case False
          from lv have vl: "is_valid_url L link = Inr True" by simp
          from hu same vl have hl: "http_host L h link" by (rule same_domain_host)
          from "3.IH"(1) budget same False H vl hl ok
          have "hosts_ok L h (crawl_recursive c L W link (d + 1) s)" by simp
          with "3.IH"(2) budget same False H hu lv
          have "hosts_ok L h (follow_links c L W u d rest (crawl_recursive c L W link (d + 1) s))" by simp
          with budget same False show ?thesis by simp
        qed
      qed
    qed
  qed
qed

lemma scrape_website_hosts:
  assumes "rejects_whitespace L" and "scrape_website c L W start s = (Inr pages, s')"
  shows "\<exists>n h. normalize_url L start = Inr (Some n) \<and> http_host L h n \<and> hosts_ok L h s'
               \<and> pages = scraped_pages s'"
proof -
  from scrape_website_Inr [OF assms(2)] obtain n where n: "normalize_url L start = Inr (Some n)"
    and s': "s' = crawl_recursive c L W n 0 (new_session s)" and pages: "pages = scraped_pages s'"
    by (elim exE conjE)
  from normalize_url_Some [OF n] have valid: "is_valid_url L n = Inr True" by auto
  from valid_http_host [OF valid] obtain p where "urlparse L n = Inr p" and host: "http_host L (netloc p) n"
    by (elim exE conjE)
  have "hosts_ok L (netloc p) (new_session s)"
    by (simp add: hosts_ok_def snapshot_on_host_def new_session_def)
  with crawl_hosts_ok(1) [of L n "netloc p" "new_session s" c W 0] assms(1) valid host
  have "hosts_ok L (netloc p) s'" by (simp add: s')
  with n host pages show ?thesis by blast
qed


lemma follow_links_budget:
  "max_pages c \<le> int (length (scraped_pages s)) \<Longrightarrow> follow_links c L W u d ls s = s"
  by (cases ls) auto

lemma follow_links_other_domain:
  "\<not> is_same_domain L u link \<Longrightarrow>
     follow_links c L W u d (link # rest) s = follow_links c L W u d rest s"
  by (simp add: follow_links_budget)

lemma hosts_ok_domains:
  assumes "hosts_ok L h s"
  shows "list_all (\<lambda>snap. (\<forall>v\<in>fst snap. get_domain L v = Some h)
                          \<and> list_all (\<lambda>p. get_domain L (url p) = Some h) (snd snap)) (history s)"
    and "\<forall>v\<in>visited_urls s. get_domain L v = Some h"
    and "list_all (\<lambda>p. get_domain L (url p) = Some h) (scraped_pages s)"
  using assms http_host_domain [of L h]
  by (auto simp: hosts_ok_def snapshot_on_host_def list_all_iff)

lemma http_host_absolute: "http_host L h u \<Longrightarrow> http_absolute L u"
  by (auto simp: http_host_iff http_absolute_def)

lemma hosts_ok_absolute:
  assumes "hosts_ok L h s"
  shows "list_all (\<lambda>snap. (\<forall>v\<in>fst snap. http_absolute L v)
                          \<and> list_all (\<lambda>p. http_absolute L (url p)) (snd snap)) (history s)"
    and "\<forall>v\<in>visited_urls s. http_absolute L v"
    and "list_all (\<lambda>p. http_absolute L (url p)) (scraped_pages s)"
  using assms http_host_absolute [of L h]
  by (auto simp: hosts_ok_def snapshot_on_host_def list_all_iff)

text \<open>
  Claim C5: for a validator that accepts no whitespace, in a session with a valid seed
  every URL of every value of the visited set and of the result list has the host of the
  normalized seed. A link that is not of the same domain as the page it is on is passed
  over: the loop goes on with the remaining links from the same state.
\<close>

theorem crawl_stays_on_host:
  assumes "rejects_whitespace L" and "scrape_website c L W start s = (Inr pages, s')"
  shows "(\<exists>n h. normalize_url L start = Inr (Some n) \<and> get_domain L n = Some h
            \<and> list_all (\<lambda>snap. (\<forall>v\<in>fst snap. get_domain L v = Some h)
                                 \<and> list_all (\<lambda>p. get_domain L (url p) = Some h) (snd snap))
                 (history s')
            \<and> (\<forall>v\<in>visited_urls s'. get_domain L v = Some h)
            \<and> list_all (\<lambda>p. get_domain L (url p) = Some h) pages)
         \<and> (\<not> is_same_domain L u link \<longrightarrow>
              follow_links c L W u d (link # rest) s0 = follow_links c L W u d rest s0)"
proof -
  from scrape_website_hosts [OF assms] obtain n h where n: "normalize_url L start = Inr (Some n)"
    and host: "http_host L h n" and ok: "hosts_ok L h s'" and pages: "pages = scraped_pages s'"
    by (elim exE conjE)
  from host have "get_domain L n = Some h" by (rule http_host_domain)
  with n hosts_ok_domains [OF ok] pages follow_links_other_domain [of L u link c W d rest s0]
  show ?thesis by blast
qed

theorem crawl_stays_on_host_witness:
  "normalize_url example_lib ''a.com'' = Inr (Some ''https://a.com'')
   \<and> get_domain example_lib ''https://a.com'' = Some ''a.com''
   \<and> list_all (\<lambda>snap. (\<forall>v\<in>fst snap. get_domain example_lib v = Some ''a.com'')
                        \<and> list_all (\<lambda>p. get_domain example_lib (url p) = Some ''a.com'') (snd snap))
        (history example_final)
   \<and> list_all (\<lambda>p. get_domain example_lib (url p) = Some ''a.com'') [page_a, page_b, page_d]
   \<and> is_same_domain example_lib ''https://a.com'' ''https://x.org/'' = False"
proof -
  have 1: "rejects_whitespace example_lib" by (simp add: rejects_whitespace_def example_lib_def)
  have 2: "normalize_url example_lib ''a.com'' = Inr (Some ''https://a.com'')" by code_simp
  have 3: "get_domain example_lib ''https://a.com'' = Some ''a.com''" by code_simp
  have 4: "is_same_domain example_lib ''https://a.com'' ''https://x.org/'' = False" by code_simp
  from crawl_stays_on_host [OF 1 example_run, THEN conjunct1] obtain n h
    where n: "normalize_url example_lib ''a.com'' = Inr (Some n)" and h: "get_domain example_lib n = Some h"
      and 5: "list_all (\<lambda>snap. (\<forall>v\<in>fst snap. get_domain example_lib v = Some h)
                        \<and> list_all (\<lambda>p. get_domain example_lib (url p) = Some h) (snd snap))
        (history example_final)"
      and 6: "\<forall>v\<in>visited_urls example_final. get_domain example_lib v = Some h"
      and 7: "list_all (\<lambda>p. get_domain example_lib (url p) = Some h) [page_a, page_b, page_d]"
    by (elim exE conjE)
  from n 2 have "n = ''https://a.com''" by simp
  with h 3 have "h = ''a.com''" by simp
  with 2 3 4 5 7 show ?thesis by simp
qed

text \<open>
  Claim C10: for a validator that accepts no whitespace, in a session with a valid seed
  every URL of every value of the visited set and of the result list parses with scheme
  http or https and a host that is not empty. The normalized seed is a valid URL, so is
  every URL that \<open>make_absolute_url\<close> returns, and a valid URL is still absolute after
  \<open>clean_url\<close>.
\<close>

theorem crawled_urls_absolute:
  assumes "rejects_whitespace L" and "scrape_website c L W start s = (Inr pages, s')"
  shows "list_all (\<lambda>snap. (\<forall>v\<in>fst snap. http_absolute L v)
                          \<and> list_all (\<lambda>p. http_absolute L (url p)) (snd snap)) (history s')
         \<and> (\<forall>v\<in>visited_urls s'. http_absolute L v)
         \<and> list_all (\<lambda>p. http_absolute L (url p)) pages
         \<and> (\<exists>n. normalize_url L start = Inr (Some n) \<and> is_valid_url L n = Inr True)
         \<and> (make_absolute_url L b r = Some a \<longrightarrow> is_valid_url L a = Inr True)
         \<and> (is_valid_url L x = Inr True \<longrightarrow> http_absolute L x \<and> http_absolute L (clean_url x))"
proof -
  from scrape_website_hosts [OF assms] obtain n h where n: "normalize_url L start = Inr (Some n)"
    and ok: "hosts_ok L h s'" and pages: "pages = scraped_pages s'"
    by (elim exE conjE)
  from normalize_url_Some [OF n] have valid: "is_valid_url L n = Inr True" by auto
  have clean: "http_absolute L x \<and> http_absolute L (clean_url x)" if x: "is_valid_url L x = Inr True"
  proof -
    from valid_http_host [OF x] obtain p where "urlparse L x = Inr p" and h: "http_host L (netloc p) x"
      by (elim exE conjE)
    from clean_url_host [OF assms(1) x h] h show ?thesis by (auto dest: http_host_absolute)
  qed
  from n valid hosts_ok_absolute [OF ok] pages clean make_absolute_url_valid [of L b r a]
  show ?thesis by blast
qed

theorem crawled_urls_absolute_witness:
  "list_all (\<lambda>snap. (\<forall>v\<in>fst snap. http_absolute example_lib v)
                      \<and> list_all (\<lambda>p. http_absolute example_lib (url p)) (snd snap))
        (history example_final)
   \<and> list_all (\<lambda>p. http_absolute example_lib (url p)) [page_a, page_b, page_d]
   \<and> http_absolute example_lib ''https://a.com/b''
   \<and> clean_url ''https://a.com/b/'' = ''https://a.com/b''
   \<and> is_valid_url example_lib ''https://a.com/b/'' = Inr True"
proof -
  have 1: "rejects_whitespace example_lib" by (simp add: rejects_whitespace_def example_lib_def)
  have 2: "is_valid_url example_lib ''https://a.com/b/'' = Inr True" by code_simp
  have 3: "clean_url ''https://a.com/b/'' = ''https://a.com/b''" by code_simp
  from crawled_urls_absolute [OF 1 example_run, where x = "''https://a.com/b/''"] 2 3
  show ?thesis by simp
qed

end
